theory Spec2Isabelle
  imports Main "HOL-Library.Word"
begin

unbundle bit_operations_syntax

section \<open>The data model of \<open>rstd::hash_map\<close> (src/hash_map.h)\<close>

text \<open>
  The container is pointer code: nodes, stored values and the array of bucket heads live
  on the free store and are reached through raw pointers. The model keeps an explicit
  store. An address is a natural number, \<open>nullptr\<close> is \<open>None\<close>, a live object is an
  entry of the store and \<open>delete\<close> removes the entry. Dereferencing \<open>nullptr\<close>, touching
  an address that is not live and indexing outside an array are undefined behaviour in
  C++; here each is a \<open>fault\<close> value, so that every operation yields \<open>Inl fault\<close> or
  \<open>Inr result\<close>.
\<close>

type_synonym addr = nat

text \<open>\<open>uint32_t\<close>; \<open>int32_t\<close> is the same 32 bits read through \<open>sint\<close>.\<close>

type_synonym uint32 = "32 word"
type_synonym int32 = "32 word"

datatype fault = NullDeref | Dangling | OutOfBounds

text \<open>\<open>rstd_support::hash_map_ll_node<T>\<close>, lines 46-87.\<close>

record hash_map_ll_node =
  rawKey :: int32
  dataPointer :: "addr option"
  parentNode :: "addr option"
  childNode :: "addr option"

text \<open>
  The free store: the live nodes, the live \<open>T\<close> objects, the live arrays of head
  pointers, and the next address \<open>new\<close> hands out (memory is unbounded in the model, so
  \<open>new\<close> never fails).
\<close>

record 'a heap =
  nodes :: "addr \<rightharpoonup> hash_map_ll_node"
  datas :: "addr \<rightharpoonup> 'a"
  arrays :: "addr \<rightharpoonup> addr option list"
  fresh :: addr

text \<open>The private members of \<open>rstd::hash_map<T>\<close>, lines 96-103.\<close>

record hash_map =
  hashIndices :: uint32
  elementCount :: uint32
  heads :: "addr option"

definition empty_heap :: "'a heap" where
  "empty_heap = \<lparr>nodes = Map.empty, datas = Map.empty, arrays = Map.empty, fresh = 0\<rparr>"

text \<open>The default member initialisers of lines 97-103.\<close>

definition default_members :: hash_map where
  "default_members = \<lparr>hashIndices = 0, elementCount = 0, heads = None\<rparr>"

subsection \<open>Allocation and access\<close>

definition new_data :: "'a \<Rightarrow> 'a heap \<Rightarrow> addr \<times> 'a heap" where
  "new_data v h = (fresh h, h\<lparr>datas := (datas h)(fresh h \<mapsto> v), fresh := fresh h + 1\<rparr>)"

definition new_node :: "hash_map_ll_node \<Rightarrow> 'a heap \<Rightarrow> addr \<times> 'a heap" where
  "new_node n h = (fresh h, h\<lparr>nodes := (nodes h)(fresh h \<mapsto> n), fresh := fresh h + 1\<rparr>)"

text \<open>
  \<open>new hash_map_ll_node<T>*[n]\<close>: the slots of the new array are indeterminate in C++;
  the model fills them with \<open>nullptr\<close>, and \<open>memsetHeads\<close> overwrites them right after.
\<close>

definition new_array :: "nat \<Rightarrow> 'a heap \<Rightarrow> addr \<times> 'a heap" where
  "new_array n h =
     (fresh h, h\<lparr>arrays := (arrays h)(fresh h \<mapsto> replicate n None), fresh := fresh h + 1\<rparr>)"

text \<open>\<open>delete p\<close> for a \<open>T*\<close>: nothing for \<open>nullptr\<close>, a fault when \<open>p\<close> is not live.\<close>

definition delete_data :: "'a heap \<Rightarrow> addr option \<Rightarrow> fault + 'a heap" where
  "delete_data h p =
     (case p of
        None \<Rightarrow> Inr h
      | Some d \<Rightarrow>
          (case datas h d of
             None \<Rightarrow> Inl Dangling
           | Some v \<Rightarrow> Inr (h\<lparr>datas := (datas h)(d := None)\<rparr>)))"

text \<open>\<open>_heads[i]\<close> read and written through the member pointer.\<close>

definition load_head :: "'a heap \<Rightarrow> hash_map \<Rightarrow> uint32 \<Rightarrow> fault + addr option" where
  "load_head h m i =
     (case heads m of
        None \<Rightarrow> Inl NullDeref
      | Some t \<Rightarrow>
          (case arrays h t of
             None \<Rightarrow> Inl Dangling
           | Some xs \<Rightarrow> if unat i < length xs then Inr (xs ! unat i) else Inl OutOfBounds))"

definition store_head :: "'a heap \<Rightarrow> hash_map \<Rightarrow> uint32 \<Rightarrow> addr option \<Rightarrow> fault + 'a heap" where
  "store_head h m i p =
     (case heads m of
        None \<Rightarrow> Inl NullDeref
      | Some t \<Rightarrow>
          (case arrays h t of
             None \<Rightarrow> Inl Dangling
           | Some xs \<Rightarrow>
               if unat i < length xs
               then Inr (h\<lparr>arrays := (arrays h)(t \<mapsto> xs[unat i := p])\<rparr>)
               else Inl OutOfBounds))"

section \<open>Construction and hashing\<close>

text \<open>Lines 113-117: every set bit is copied into all lower positions.\<close>

definition smear_right :: "uint32 \<Rightarrow> uint32" where
  "smear_right x0 =
     (let x = x0;
          x = x OR drop_bit 1 x;
          x = x OR drop_bit 2 x;
          x = x OR drop_bit 4 x;
          x = x OR drop_bit 8 x;
          x = x OR drop_bit 16 x
      in x)"

text \<open>Lines 112-118: the request minus one, smeared, plus one; \<open>uint32_t\<close> wraps.\<close>

definition round_up_pow2 :: "uint32 \<Rightarrow> uint32" where
  "round_up_pow2 storageSize = smear_right (storageSize - 1) + 1"

text \<open>Lines 112-122: the bucket count the constructor settles on.\<close>

definition initial_hashIndices :: "uint32 \<Rightarrow> uint32" where
  "initial_hashIndices storageSize =
     (let n = round_up_pow2 storageSize in if n = 0 then 256 else n)"

text \<open>
  \<open>memsetHeads\<close>, lines 296-298: zero the first \<open>_hashIndices\<close> slots of \<open>_heads\<close>. A
  \<open>memset\<close> of zero bytes through a null pointer, as in a moved-from map, does nothing.
\<close>

definition memsetHeads :: "'a heap \<Rightarrow> hash_map \<Rightarrow> fault + 'a heap" where
  "memsetHeads h m =
     (case heads m of
        None \<Rightarrow> if hashIndices m = 0 then Inr h else Inl NullDeref
      | Some t \<Rightarrow>
          (case arrays h t of
             None \<Rightarrow> Inl Dangling
           | Some xs \<Rightarrow>
               if unat (hashIndices m) \<le> length xs
               then Inr (h\<lparr>arrays := (arrays h)(t \<mapsto>
                      replicate (unat (hashIndices m)) None @ drop (unat (hashIndices m)) xs)\<rparr>)
               else Inl OutOfBounds))"

text \<open>\<open>hash_map(uint32_t storageSize = 256)\<close>, lines 110-126.\<close>

definition hash_map_ctor :: "uint32 \<Rightarrow> 'a heap \<Rightarrow> fault + 'a heap \<times> hash_map" where
  "hash_map_ctor storageSize h =
     (let n = initial_hashIndices storageSize;
          (t, h1) = new_array (unat n) h;
          m = \<lparr>hashIndices = n, elementCount = 0, heads = Some t\<rparr>
      in case memsetHeads h1 m of Inl e \<Rightarrow> Inl e | Inr h2 \<Rightarrow> Inr (h2, m))"

text \<open>
  \<open>hashThis\<close>, lines 301-303. In \<open>rawKey & (_hashIndices - 1)\<close> the signed key is
  converted to \<open>uint32_t\<close>, which keeps its bits.
\<close>

definition hashThis :: "hash_map \<Rightarrow> int32 \<Rightarrow> uint32" where
  "hashThis m key = key AND (hashIndices m - 1)"

subsection \<open>Queries, lines 242-269\<close>

definition empty_hm :: "hash_map \<Rightarrow> bool" where
  "empty_hm m \<longleftrightarrow> elementCount m = 0"

definition size_hm :: "hash_map \<Rightarrow> uint32" where
  "size_hm m = elementCount m"

definition bucketCount :: "hash_map \<Rightarrow> uint32" where
  "bucketCount m = hashIndices m"

section \<open>Sequencing\<close>

text \<open>
  A call that loops yields \<open>None\<close> when it does not return, \<open>Some (Inl fault)\<close> when it
  runs into undefined behaviour and \<open>Some (Inr result)\<close> otherwise. \<open>and_then\<close> runs the
  next call on the result of the previous one.
\<close>

definition and_then :: "(fault + 'x) option \<Rightarrow> ('x \<Rightarrow> (fault + 'y) option) \<Rightarrow> (fault + 'y) option" where
  "and_then r f = (case r of None \<Rightarrow> None | Some (Inl e) \<Rightarrow> Some (Inl e) | Some (Inr x) \<Rightarrow> f x)"

text \<open>Reading and writing the \<open>T\<close> behind a reference the map handed out.\<close>

definition read_ref :: "'a heap \<Rightarrow> addr \<Rightarrow> fault + 'a" where
  "read_ref h r = (case datas h r of None \<Rightarrow> Inl Dangling | Some v \<Rightarrow> Inr v)"

definition write_ref :: "'a heap \<Rightarrow> addr \<Rightarrow> 'a \<Rightarrow> fault + 'a heap" where
  "write_ref h r v =
     (case datas h r of None \<Rightarrow> Inl Dangling | Some old \<Rightarrow> Inr (h\<lparr>datas := (datas h)(r \<mapsto> v)\<rparr>))"

section \<open>Access with lazy insertion: \<open>operator[]\<close>, lines 161-189\<close>

text \<open>\<open>*(node->dataPointer)\<close>: the reference is the address of a live \<open>T\<close>.\<close>

definition deref_data :: "'a heap \<Rightarrow> addr option \<Rightarrow> fault + addr" where
  "deref_data h p =
     (case p of
        None \<Rightarrow> Inl NullDeref
      | Some d \<Rightarrow> (case datas h d of None \<Rightarrow> Inl Dangling | Some v \<Rightarrow> Inr d))"

text \<open>
  Line 184, \<open>curNode->childNode = new hash_map_ll_node<T>(rawKey, curNode, new T())\<close>,
  where \<open>n\<close> is the node \<open>curNode\<close> points to. The result is the address of the new \<open>T\<close>
  and the store.
\<close>

definition new_child :: "'a \<Rightarrow> 'a heap \<Rightarrow> addr \<Rightarrow> hash_map_ll_node \<Rightarrow> int32 \<Rightarrow> addr \<times> 'a heap" where
  "new_child dflt h curNode n key =
     (let (d, h1) = new_data dflt h;
          (c, h2) = new_node \<lparr>rawKey = key, dataPointer = Some d,
                               parentNode = Some curNode, childNode = None\<rparr> h1
      in (d, h2\<lparr>nodes := (nodes h2)(curNode \<mapsto> n\<lparr>childNode := Some c\<rparr>)\<rparr>))"

text \<open>
  The \<open>do ... while (true)\<close> of lines 173-188, entered with a non-null \<open>curNode\<close>.
  \<open>dflt\<close> is the value of \<open>T()\<close>. The result is the reference returned, the store and the
  members of the map.
\<close>

partial_function (option) index_loop ::
  "'a \<Rightarrow> 'a heap \<Rightarrow> hash_map \<Rightarrow> addr \<Rightarrow> int32 \<Rightarrow> (fault + addr \<times> 'a heap \<times> hash_map) option" where
  "index_loop dflt h m curNode key =
     (case nodes h curNode of
        None \<Rightarrow> Some (Inl Dangling)
      | Some n \<Rightarrow>
          if rawKey n = key then
            (case deref_data h (dataPointer n) of
               Inl e \<Rightarrow> Some (Inl e)
             | Inr r \<Rightarrow> Some (Inr (r, h, m)))
          else
            (case childNode n of
               Some c \<Rightarrow> index_loop dflt h m c key
             | None \<Rightarrow>
                 (let (d, h3) = new_child dflt h curNode n key
                  in Some (Inr (d, h3, m\<lparr>elementCount := elementCount m + 1\<rparr>)))))"

definition operator_index ::
  "'a \<Rightarrow> 'a heap \<Rightarrow> hash_map \<Rightarrow> int32 \<Rightarrow> (fault + addr \<times> 'a heap \<times> hash_map) option" where
  "operator_index dflt h m key =
     (let hashedKey = hashThis m key
      in case load_head h m hashedKey of
           Inl e \<Rightarrow> Some (Inl e)
         | Inr None \<Rightarrow>
             (let (d, h1) = new_data dflt h;
                  (c, h2) = new_node \<lparr>rawKey = key, dataPointer = Some d,
                                       parentNode = None, childNode = None\<rparr> h1
              in case store_head h2 m hashedKey (Some c) of
                   Inl e \<Rightarrow> Some (Inl e)
                 | Inr h3 \<Rightarrow> Some (Inr (d, h3, m\<lparr>elementCount := elementCount m + 1\<rparr>)))
         | Inr (Some curNode) \<Rightarrow> index_loop dflt h m curNode key)"

section \<open>Destruction of nodes, \<open>erase\<close> and \<open>clear\<close>\<close>

text \<open>
  \<open>delete p\<close> for a node pointer: nothing for \<open>nullptr\<close>; otherwise the destructor of
  lines 82-85 runs (\<open>delete dataPointer; delete childNode;\<close>) and then the node's storage
  is released. Deleting an address that is not live is a fault.
\<close>

partial_function (option) delete_node :: "'a heap \<Rightarrow> addr option \<Rightarrow> (fault + 'a heap) option" where
  "delete_node h p =
     (case p of
        None \<Rightarrow> Some (Inr h)
      | Some a \<Rightarrow>
          (case nodes h a of
             None \<Rightarrow> Some (Inl Dangling)
           | Some n \<Rightarrow>
               (case delete_data h (dataPointer n) of
                  Inl e \<Rightarrow> Some (Inl e)
                | Inr h1 \<Rightarrow>
                    Option.bind (delete_node h1 (childNode n))
                      (\<lambda>r. case r of
                              Inl e \<Rightarrow> Some (Inl e)
                            | Inr h2 \<Rightarrow> Some (Inr (h2\<lparr>nodes := (nodes h2)(a := None)\<rparr>))))))"

text \<open>Lines 223-228: the node \<open>n\<close> being erased is taken out of its chain.\<close>

definition unlink_node :: "'a heap \<Rightarrow> hash_map \<Rightarrow> uint32 \<Rightarrow> hash_map_ll_node \<Rightarrow> fault + 'a heap" where
  "unlink_node h m hashedKey n =
     (case parentNode n of
        None \<Rightarrow> store_head h m hashedKey (childNode n)
      | Some p \<Rightarrow>
          (case nodes h p of
             None \<Rightarrow> Inl Dangling
           | Some pn \<Rightarrow> Inr (h\<lparr>nodes := (nodes h)(p \<mapsto> pn\<lparr>childNode := childNode n\<rparr>)\<rparr>)))"

text \<open>The \<open>do ... while (true)\<close> of lines 219-238.\<close>

partial_function (option) erase_loop ::
  "'a heap \<Rightarrow> hash_map \<Rightarrow> uint32 \<Rightarrow> addr \<Rightarrow> int32 \<Rightarrow> (fault + 'a heap) option" where
  "erase_loop h m hashedKey curNode key =
     (case nodes h curNode of
        None \<Rightarrow> Some (Inl Dangling)
      | Some n \<Rightarrow>
          if rawKey n = key then
            (case unlink_node h m hashedKey n of
               Inl e \<Rightarrow> Some (Inl e)
             | Inr h1 \<Rightarrow> delete_node h1 (Some curNode))
          else
            (case childNode n of
               None \<Rightarrow> Some (Inr h)
             | Some c \<Rightarrow> erase_loop h m hashedKey c key))"

text \<open>
  \<open>erase\<close>, lines 210-240. No data member of the map is assigned, so the call yields
  the new store only and the \<open>hash_map\<close> record stays as it was.
\<close>

definition erase :: "'a heap \<Rightarrow> hash_map \<Rightarrow> int32 \<Rightarrow> (fault + 'a heap) option" where
  "erase h m key =
     (let hashedKey = hashThis m key
      in case load_head h m hashedKey of
           Inl e \<Rightarrow> Some (Inl e)
         | Inr None \<Rightarrow> Some (Inr h)
         | Inr (Some curNode) \<Rightarrow> erase_loop h m hashedKey curNode key)"

text \<open>The \<open>while (toDelete != nullptr)\<close> of lines 199-203.\<close>

partial_function (option) clear_chain :: "'a heap \<Rightarrow> addr option \<Rightarrow> (fault + 'a heap) option" where
  "clear_chain h toDelete =
     (case toDelete of
        None \<Rightarrow> Some (Inr h)
      | Some a \<Rightarrow>
          (case nodes h a of
             None \<Rightarrow> Some (Inl Dangling)
           | Some n \<Rightarrow>
               Option.bind (delete_node h (Some a))
                 (\<lambda>r. case r of
                         Inl e \<Rightarrow> Some (Inl e)
                       | Inr h1 \<Rightarrow> clear_chain h1 (childNode n))))"

text \<open>The \<open>for\<close> loop of lines 194-204, from bucket \<open>i\<close> on.\<close>

function clear_from :: "'a heap \<Rightarrow> hash_map \<Rightarrow> uint32 \<Rightarrow> (fault + 'a heap) option" where
  "clear_from h m i =
     (if i < hashIndices m then
        (case load_head h m i of
           Inl e \<Rightarrow> Some (Inl e)
         | Inr toDelete \<Rightarrow>
             (case clear_chain h toDelete of
                None \<Rightarrow> None
              | Some (Inl e) \<Rightarrow> Some (Inl e)
              | Some (Inr h1) \<Rightarrow> clear_from h1 m (i + 1)))
      else Some (Inr h))"
  by pat_completeness auto
termination
proof (relation "measure (\<lambda>(h, m, i). unat (hashIndices m) - unat i)")
  show "wf (measure (\<lambda>(h, m, i). unat (hashIndices m) - unat i))"
    by simp
next
  fix h :: "'a heap" and m :: hash_map and i :: uint32
  assume "i < hashIndices m"
  then have lt: "unat i < unat (hashIndices m)"
    by (simp add: word_less_nat_alt)
  have "unat (hashIndices m) < 2 ^ 32"
    using unsigned_less [of "hashIndices m"] by simp
  with lt have "unat i + 1 < 2 ^ 32"
    by simp
  moreover have "unat (i + 1) = (unat i + 1) mod 2 ^ 32"
    by (simp add: unat_word_ariths)
  ultimately have "unat (i + 1) = Suc (unat i)"
    by simp
  with lt show "((h1, m, i + 1), (h, m, i)) \<in> measure (\<lambda>(h, m, i). unat (hashIndices m) - unat i)" for h1 :: "'a heap"
    by simp
qed

declare clear_from.simps [simp del]

text \<open>\<open>clear\<close>, lines 192-207. As in \<open>erase\<close>, no data member is assigned.\<close>

definition clear :: "'a heap \<Rightarrow> hash_map \<Rightarrow> (fault + 'a heap) option" where
  "clear h m =
     (case clear_from h m 0 of
        None \<Rightarrow> None
      | Some (Inl e) \<Rightarrow> Some (Inl e)
      | Some (Inr h1) \<Rightarrow> Some (memsetHeads h1 m))"

section \<open>\<open>bucketDensity\<close>, lines 253-264\<close>

partial_function (option) count_chain :: "'a heap \<Rightarrow> addr option \<Rightarrow> uint32 \<Rightarrow> (fault + uint32) option" where
  "count_chain h curNode counter =
     (case curNode of
        None \<Rightarrow> Some (Inr counter)
      | Some a \<Rightarrow>
          (case nodes h a of
             None \<Rightarrow> Some (Inl Dangling)
           | Some n \<Rightarrow> count_chain h (childNode n) (counter + 1)))"

definition bucketDensity :: "'a heap \<Rightarrow> hash_map \<Rightarrow> int32 \<Rightarrow> (fault + uint32) option" where
  "bucketDensity h m key =
     (case load_head h m (hashThis m key) of
        Inl e \<Rightarrow> Some (Inl e)
      | Inr curNode \<Rightarrow> count_chain h curNode 0)"

section \<open>Value semantics: copy, move, swap, destructor\<close>

text \<open>
  The copying constructor of the node, lines 68-76, as run by
  \<open>new hash_map_ll_node<T>(other, parent)\<close>: storage for the new node is taken first, the
  value is cloned with \<open>T\<close>'s copy constructor (a \<open>T\<close> is a plain value here, its copy is
  the same value), and the rest of the chain is cloned recursively with the new node as
  parent. The result is the address of the clone.
\<close>

partial_function (option) copy_node ::
  "'a heap \<Rightarrow> addr \<Rightarrow> addr option \<Rightarrow> (fault + addr \<times> 'a heap) option" where
  "copy_node h other parent =
     (case nodes h other of
        None \<Rightarrow> Some (Inl Dangling)
      | Some on \<Rightarrow>
          (let this = fresh h;
               h0 = h\<lparr>fresh := this + 1\<rparr>
           in case dataPointer on of
                None \<Rightarrow> Some (Inl NullDeref)
              | Some od \<Rightarrow>
                  (case datas h0 od of
                     None \<Rightarrow> Some (Inl Dangling)
                   | Some v \<Rightarrow>
                       (let (d, h1) = new_data v h0;
                            n = \<lparr>rawKey = rawKey on, dataPointer = Some d,
                                 parentNode = parent, childNode = None\<rparr>;
                            h2 = h1\<lparr>nodes := (nodes h1)(this \<mapsto> n)\<rparr>
                        in case childNode on of
                             None \<Rightarrow> Some (Inr (this, h2))
                           | Some oc \<Rightarrow>
                               Option.bind (copy_node h2 oc (Some this))
                                 (\<lambda>r. case r of
                                         Inl e \<Rightarrow> Some (Inl e)
                                       | Inr (c, h3) \<Rightarrow>
                                           Some (Inr (this,
                                             h3\<lparr>nodes := (nodes h3)(this \<mapsto> n\<lparr>childNode := Some c\<rparr>)\<rparr>)))))))"

text \<open>The \<open>for\<close> loop of the copy constructor, lines 130-134, from bucket \<open>i\<close> on.\<close>

function copy_from :: "'a heap \<Rightarrow> hash_map \<Rightarrow> hash_map \<Rightarrow> uint32 \<Rightarrow> (fault + 'a heap) option" where
  "copy_from h m other i =
     (if i < hashIndices m then
        (case load_head h other i of
           Inl e \<Rightarrow> Some (Inl e)
         | Inr None \<Rightarrow> copy_from h m other (i + 1)
         | Inr (Some a) \<Rightarrow>
             (case copy_node h a None of
                None \<Rightarrow> None
              | Some (Inl e) \<Rightarrow> Some (Inl e)
              | Some (Inr (c, h1)) \<Rightarrow>
                  (case store_head h1 m i (Some c) of
                     Inl e \<Rightarrow> Some (Inl e)
                   | Inr h2 \<Rightarrow> copy_from h2 m other (i + 1))))
      else Some (Inr h))"
  by pat_completeness auto
termination
proof (relation "measure (\<lambda>(h, m, other, i). unat (hashIndices m) - unat i)")
  show "wf (measure (\<lambda>(h, m, other, i). unat (hashIndices m) - unat i))"
    by simp
next
  fix m :: hash_map and i :: uint32
  assume "i < hashIndices m"
  then have lt: "unat i < unat (hashIndices m)"
    by (simp add: word_less_nat_alt)
  have "unat (hashIndices m) < 2 ^ 32"
    using unsigned_less [of "hashIndices m"] by simp
  with lt have "unat i + 1 < 2 ^ 32"
    by simp
  moreover have "unat (i + 1) = (unat i + 1) mod 2 ^ 32"
    by (simp add: unat_word_ariths)
  ultimately have "unat (i + 1) = Suc (unat i)"
    by simp
  with lt show "((h1, m, other, i + 1), (h, m, other, i))
      \<in> measure (\<lambda>(h, m, other, i). unat (hashIndices m) - unat i)"
    for h h1 :: "'a heap" and other :: hash_map
    by simp
  with lt show "((h1, m, other, i + 1), (h, m, other, i))
      \<in> measure (\<lambda>(h, m, other, i). unat (hashIndices m) - unat i)"
    for h h1 :: "'a heap" and other :: hash_map
    by simp
qed

declare copy_from.simps [simp del]

text \<open>
  The copy constructor, lines 128-135. It delegates to \<open>hash_map(other._hashIndices)\<close>,
  which leaves \<open>_elementCount\<close> at its default member initialiser, and then clones the
  chains; no statement assigns \<open>_elementCount\<close>.
\<close>

definition hash_map_copy_ctor :: "'a heap \<Rightarrow> hash_map \<Rightarrow> (fault + 'a heap \<times> hash_map) option" where
  "hash_map_copy_ctor h other =
     (case hash_map_ctor (hashIndices other) h of
        Inl e \<Rightarrow> Some (Inl e)
      | Inr (h1, m) \<Rightarrow>
          (case copy_from h1 m other 0 of
             None \<Rightarrow> None
           | Some (Inl e) \<Rightarrow> Some (Inl e)
           | Some (Inr h2) \<Rightarrow> Some (Inr (h2, m))))"

text \<open>\<open>rstd::swap\<close>, lines 312-318: the three members change places.\<close>

definition swap :: "hash_map \<times> hash_map \<Rightarrow> hash_map \<times> hash_map" where
  "swap maps =
     (let (map1, map2) = maps;
          (map1, map2) = (map1\<lparr>hashIndices := hashIndices map2\<rparr>, map2\<lparr>hashIndices := hashIndices map1\<rparr>);
          (map1, map2) = (map1\<lparr>elementCount := elementCount map2\<rparr>, map2\<lparr>elementCount := elementCount map1\<rparr>);
          (map1, map2) = (map1\<lparr>heads := heads map2\<rparr>, map2\<lparr>heads := heads map1\<rparr>)
      in (map1, map2))"

text \<open>
  The move constructor, lines 137-139: \<open>*this\<close> starts from the default member
  initialisers and is swapped with \<open>other\<close>. The result is \<open>(*this, other)\<close>.
\<close>

definition hash_map_move_ctor :: "hash_map \<Rightarrow> hash_map \<times> hash_map" where
  "hash_map_move_ctor other = swap (default_members, other)"

text \<open>Move assignment, lines 149-152. The result is \<open>(*this, other)\<close>.\<close>

definition move_assign :: "hash_map \<Rightarrow> hash_map \<Rightarrow> hash_map \<times> hash_map" where
  "move_assign m other = swap (m, other)"

text \<open>\<open>delete[] _heads\<close>.\<close>

definition delete_array :: "'a heap \<Rightarrow> addr option \<Rightarrow> fault + 'a heap" where
  "delete_array h p =
     (case p of
        None \<Rightarrow> Inr h
      | Some t \<Rightarrow>
          (case arrays h t of
             None \<Rightarrow> Inl Dangling
           | Some xs \<Rightarrow> Inr (h\<lparr>arrays := (arrays h)(t := None)\<rparr>)))"

text \<open>The destructor, lines 155-158.\<close>

definition hash_map_dtor :: "'a heap \<Rightarrow> hash_map \<Rightarrow> (fault + 'a heap) option" where
  "hash_map_dtor h m =
     (case clear h m of
        None \<Rightarrow> None
      | Some (Inl e) \<Rightarrow> Some (Inl e)
      | Some (Inr h1) \<Rightarrow> Some (delete_array h1 (heads m)))"

text \<open>
  Copy assignment, lines 141-147. Maps are records here, not objects with an address, so
  the test \<open>this != &other\<close> is the argument \<open>same_object\<close>. The temporary is destroyed
  when its block ends. The result is the store and \<open>*this\<close>.
\<close>

definition copy_assign ::
  "bool \<Rightarrow> 'a heap \<Rightarrow> hash_map \<Rightarrow> hash_map \<Rightarrow> (fault + 'a heap \<times> hash_map) option" where
  "copy_assign same_object h m other =
     (if \<not> same_object then
        (case hash_map_copy_ctor h other of
           None \<Rightarrow> None
         | Some (Inl e) \<Rightarrow> Some (Inl e)
         | Some (Inr (h1, temp)) \<Rightarrow>
             (let (m1, temp1) = swap (m, temp)
              in case hash_map_dtor h1 temp1 of
                   None \<Rightarrow> None
                 | Some (Inl e) \<Rightarrow> Some (Inl e)
                 | Some (Inr h2) \<Rightarrow> Some (Inr (h2, m1))))
      else Some (Inr (h, m)))"

section \<open>Well-formed states\<close>

text \<open>
  \<open>chain h p as\<close>: following \<open>childNode\<close> from the pointer \<open>p\<close> visits exactly the live
  nodes at the addresses \<open>as\<close>, each owning a live value, and ends at \<open>nullptr\<close>.
\<close>

primrec chain :: "'a heap \<Rightarrow> addr option \<Rightarrow> addr list \<Rightarrow> bool" where
  "chain h p [] \<longleftrightarrow> p = None"
| "chain h p (a # as) \<longleftrightarrow>
     p = Some a \<and>
     (case nodes h a of
        None \<Rightarrow> False
      | Some n \<Rightarrow>
          (case dataPointer n of None \<Rightarrow> False | Some d \<Rightarrow> datas h d \<noteq> None) \<and>
          chain h (childNode n) as)"

text \<open>The key and the value held by the node at an address.\<close>

definition entry :: "'a heap \<Rightarrow> addr \<Rightarrow> (int32 \<times> 'a) option" where
  "entry h a =
     (case nodes h a of
        None \<Rightarrow> None
      | Some n \<Rightarrow>
          (case dataPointer n of
             None \<Rightarrow> None
           | Some d \<Rightarrow> map_option (Pair (rawKey n)) (datas h d)))"

definition key_at :: "'a heap \<Rightarrow> addr \<Rightarrow> int32 option" where
  "key_at h a = map_option rawKey (nodes h a)"

text \<open>The allocator has handed out only addresses below \<open>fresh\<close>.\<close>

definition heap_ok :: "'a heap \<Rightarrow> bool" where
  "heap_ok h \<longleftrightarrow> (\<forall>a\<ge>fresh h. nodes h a = None \<and> datas h a = None \<and> arrays h a = None)"

text \<open>A power of two that fits \<open>uint32_t\<close>; in particular at least 1.\<close>

definition pow2_ge1 :: "uint32 \<Rightarrow> bool" where
  "pow2_ge1 n \<longleftrightarrow> 1 \<le> n \<and> (\<exists>k<32. n = 2 ^ k)"

text \<open>
  A well-formed map: a power-of-two bucket count, a live array of that many heads, and a
  chain behind every head.
\<close>

definition valid :: "'a heap \<Rightarrow> hash_map \<Rightarrow> bool" where
  "valid h m \<longleftrightarrow>
     heap_ok h \<and> pow2_ge1 (hashIndices m) \<and>
     (case heads m of
        None \<Rightarrow> False
      | Some t \<Rightarrow>
          (case arrays h t of
             None \<Rightarrow> False
           | Some xs \<Rightarrow>
               length xs = unat (hashIndices m) \<and> (\<forall>i<length xs. \<exists>as. chain h (xs ! i) as)))"

text \<open>The map holds a node for the key in the key's bucket.\<close>

definition holds_key :: "'a heap \<Rightarrow> hash_map \<Rightarrow> int32 \<Rightarrow> bool" where
  "holds_key h m key \<longleftrightarrow>
     (\<exists>p as. load_head h m (hashThis m key) = Inr p \<and> chain h p as \<and> Some key \<in> key_at h ` set as)"

text \<open>The address of the value owned by the node at an address.\<close>

definition data_at :: "'a heap \<Rightarrow> addr \<Rightarrow> addr option" where
  "data_at h a = (case nodes h a of None \<Rightarrow> None | Some n \<Rightarrow> dataPointer n)"

text \<open>
  The \<open>parentNode\<close> links along a chain: the first node has \<open>par\<close> as its parent, every
  later node the node before it.
\<close>

primrec back_linked :: "'a heap \<Rightarrow> addr option \<Rightarrow> addr list \<Rightarrow> bool" where
  "back_linked h par [] \<longleftrightarrow> True"
| "back_linked h par (b # bs) \<longleftrightarrow>
     (case nodes h b of
        None \<Rightarrow> False
      | Some n \<Rightarrow> parentNode n = par \<and> back_linked h (Some b) bs)"

text \<open>
  The chain behind \<open>q\<close> in the store \<open>h'\<close> is a deep clone of the chain behind \<open>p\<close> in the
  store \<open>h\<close>: the same keys and values in the same order, with the \<open>parentNode\<close> links of
  a chain that starts at a bucket head, and held by nodes and \<open>T\<close> objects that did not
  exist in \<open>h\<close>.
\<close>

definition is_clone :: "'a heap \<Rightarrow> addr option \<Rightarrow> 'a heap \<Rightarrow> addr option \<Rightarrow> bool" where
  "is_clone h p h' q \<longleftrightarrow>
     (\<exists>as bs. chain h p as \<and> chain h' q bs \<and> map (entry h') bs = map (entry h) as \<and>
        back_linked h' None bs \<and>
        (\<forall>b\<in>set bs. nodes h b = None \<and> (\<exists>d. data_at h' b = Some d \<and> datas h d = None)))"


section \<open>A small map used in the examples\<close>

text \<open>
  The state after \<open>hash_map<int> m(2); m[1] = 10; m[3] = 30;\<close>. Both keys hash to
  bucket 1, so the node of key 3 hangs behind the node of key 1.
\<close>

definition two_keys_heap :: "int heap" where
  "two_keys_heap =
     \<lparr>nodes = [2 \<mapsto> \<lparr>rawKey = 1, dataPointer = Some 1, parentNode = None, childNode = Some 4\<rparr>,
               4 \<mapsto> \<lparr>rawKey = 3, dataPointer = Some 3, parentNode = Some 2, childNode = None\<rparr>],
      datas = [1 \<mapsto> 10, 3 \<mapsto> 30],
      arrays = [0 \<mapsto> [None, Some 2]],
      fresh = 5\<rparr>"

definition two_keys_map :: hash_map where
  "two_keys_map = \<lparr>hashIndices = 2, elementCount = 2, heads = Some 0\<rparr>"

text \<open>
  The same store after a second, empty map \<open>hash_map<int> b(2)\<close> has been constructed,
  and the members of that map.
\<close>

definition two_maps_heap :: "int heap" where
  "two_maps_heap = two_keys_heap\<lparr>arrays := (arrays two_keys_heap)(5 \<mapsto> [None, None]), fresh := 6\<rparr>"

definition empty_map2 :: hash_map where
  "empty_map2 = \<lparr>hashIndices = 2, elementCount = 0, heads = Some 5\<rparr>"

text \<open>The store after \<open>b[7] = 70\<close> on top of that, and the members of \<open>b\<close> then.\<close>

definition three_keys_heap :: "int heap" where
  "three_keys_heap =
     two_keys_heap\<lparr>nodes := (nodes two_keys_heap)
                       (7 \<mapsto> \<lparr>rawKey = 7, dataPointer = Some 6, parentNode = None, childNode = None\<rparr>),
                    datas := (datas two_keys_heap)(6 \<mapsto> 70),
                    arrays := (arrays two_keys_heap)(5 \<mapsto> [None, Some 7]),
                    fresh := 8\<rparr>"

definition one_key_map :: hash_map where
  "one_key_map = \<lparr>hashIndices = 2, elementCount = 1, heads = Some 5\<rparr>"

section \<open>Facts about the rounding of lines 112-118\<close>

lemma smear_right_step:
  fixes x y :: uint32
  assumes "\<And>i. bit y i \<longleftrightarrow> (\<exists>k<m. bit x (i + k))"
  shows "bit (y OR drop_bit m y) i \<longleftrightarrow> (\<exists>k<2 * m. bit x (i + k))"
proof -
  have "bit (y OR drop_bit m y) i \<longleftrightarrow> bit y i \<or> bit y (m + i)"
    by (simp add: bit_or_iff bit_drop_bit_eq)
  also have "\<dots> \<longleftrightarrow> (\<exists>k<m. bit x (i + k)) \<or> (\<exists>k<m. bit x (m + i + k))"
    by (simp add: assms)
  also have "\<dots> \<longleftrightarrow> (\<exists>k<2 * m. bit x (i + k))"
  proof
    assume "(\<exists>k<m. bit x (i + k)) \<or> (\<exists>k<m. bit x (m + i + k))"
    then show "\<exists>k<2 * m. bit x (i + k)"
    proof
      assume "\<exists>k<m. bit x (i + k)"
      then obtain k where "k < m" "bit x (i + k)" by blast
      then show ?thesis by (intro exI [of _ k]) simp
    next
      assume "\<exists>k<m. bit x (m + i + k)"
      then obtain k where "k < m" "bit x (m + i + k)" by blast
      then show ?thesis by (intro exI [of _ "m + k"]) (simp add: ac_simps)
    qed
  next
    assume "\<exists>k<2 * m. bit x (i + k)"
    then obtain k where k: "k < 2 * m" "bit x (i + k)" by blast
    show "(\<exists>k<m. bit x (i + k)) \<or> (\<exists>k<m. bit x (m + i + k))"
    proof (cases "k < m")
      case True
      with k show ?thesis by blast
    next
      case False
      with k have "k - m < m" "bit x (m + i + (k - m))" by (simp_all add: ac_simps)
      then show ?thesis by blast
    qed
  qed
  finally show ?thesis .
qed

lemma bit_smear_right: "bit (smear_right x) i \<longleftrightarrow> (\<exists>k<32. bit x (i + k))"
proof -
  define x1 where "x1 = x OR drop_bit 1 x"
  define x2 where "x2 = x1 OR drop_bit 2 x1"
  define x3 where "x3 = x2 OR drop_bit 4 x2"
  define x4 where "x4 = x3 OR drop_bit 8 x3"
  define x5 where "x5 = x4 OR drop_bit 16 x4"
  have b0: "bit x i \<longleftrightarrow> (\<exists>k<1. bit x (i + k))" for i by simp
  have b1: "bit x1 i \<longleftrightarrow> (\<exists>k<2. bit x (i + k))" for i
    unfolding x1_def using smear_right_step [of x 1 x i, OF b0] by simp
  have b2: "bit x2 i \<longleftrightarrow> (\<exists>k<4. bit x (i + k))" for i
    unfolding x2_def using smear_right_step [of x1 2 x i, OF b1] by simp
  have b3: "bit x3 i \<longleftrightarrow> (\<exists>k<8. bit x (i + k))" for i
    unfolding x3_def using smear_right_step [of x2 4 x i, OF b2] by simp
  have b4: "bit x4 i \<longleftrightarrow> (\<exists>k<16. bit x (i + k))" for i
    unfolding x4_def using smear_right_step [of x3 8 x i, OF b3] by simp
  have b5: "bit x5 i \<longleftrightarrow> (\<exists>k<32. bit x (i + k))" for i
    unfolding x5_def using smear_right_step [of x4 16 x i, OF b4] by simp
  have "smear_right x = x5"
    by (simp add: smear_right_def Let_def x5_def x4_def x3_def x2_def x1_def)
  with b5 show ?thesis by simp
qed

lemma bit_smear_right_ge: "bit (smear_right x) i \<longleftrightarrow> (\<exists>j\<ge>i. bit x j)"
proof
  assume "bit (smear_right x) i"
  then obtain k where "bit x (i + k)" by (auto simp: bit_smear_right)
  then show "\<exists>j\<ge>i. bit x j" by (intro exI [of _ "i + k"]) simp
next
  assume "\<exists>j\<ge>i. bit x j"
  then obtain j where j: "i \<le> j" "bit x j" by blast
  then have "j < 32" using bit_imp_le_length [of x j] by simp
  with j have "j - i < 32" "bit x (i + (j - i))" by simp_all
  then show "bit (smear_right x) i" unfolding bit_smear_right by blast
qed

lemma take_bit_self_iff_upper_clear:
  fixes x :: uint32
  shows "take_bit m x = x \<longleftrightarrow> (\<forall>j\<ge>m. \<not> bit x j)"
proof
  assume eq: "take_bit m x = x"
  show "\<forall>j\<ge>m. \<not> bit x j"
  proof (intro allI impI)
    fix j assume "m \<le> j"
    then have "\<not> bit (take_bit m x) j" by (simp add: bit_take_bit_iff)
    with eq show "\<not> bit x j" by simp
  qed
next
  assume clear: "\<forall>j\<ge>m. \<not> bit x j"
  show "take_bit m x = x"
  proof (rule bit_word_eqI)
    fix n
    show "bit (take_bit m x) n \<longleftrightarrow> bit x n"
      using clear by (cases "n < m") (auto simp: bit_take_bit_iff not_less)
  qed
qed

lemma upper_bits_clear_iff:
  fixes x :: uint32
  shows "(\<forall>j\<ge>m. \<not> bit x j) \<longleftrightarrow> unat x < 2 ^ m"
proof -
  have "unat x < 2 ^ m \<longleftrightarrow> take_bit m (unat x) = unat x"
    by (simp add: take_bit_nat_eq_self_iff)
  also have "\<dots> \<longleftrightarrow> unat (take_bit m x) = unat x"
    by (simp add: unsigned_take_bit_eq)
  also have "\<dots> \<longleftrightarrow> take_bit m x = x"
    by (simp add: word_unat_eq_iff)
  finally show ?thesis by (simp add: take_bit_self_iff_upper_clear)
qed

lemma smear_right_eq_mask:
  fixes x :: uint32
  assumes up: "unat x < 2 ^ m" and lo: "m = 0 \<or> 2 ^ (m - 1) \<le> unat x"
  shows "smear_right x = mask m"
proof (rule bit_word_eqI)
  fix i assume "i < LENGTH(32)"
  have "bit (smear_right x) i \<longleftrightarrow> \<not> unat x < 2 ^ i"
    by (simp add: bit_smear_right_ge flip: upper_bits_clear_iff)
  also have "\<dots> \<longleftrightarrow> i < m"
  proof
    assume "\<not> unat x < 2 ^ i"
    with up have "(2::nat) ^ i < 2 ^ m" by linarith
    then show "i < m" by simp
  next
    assume "i < m"
    then have le: "(2::nat) ^ i \<le> 2 ^ (m - 1)" by (intro power_increasing) simp_all
    from lo \<open>i < m\<close> have "2 ^ (m - 1) \<le> unat x" by simp
    with le show "\<not> unat x < 2 ^ i" by linarith
  qed
  finally show "bit (smear_right x) i \<longleftrightarrow> bit (mask m :: uint32) i"
    using \<open>i < LENGTH(32)\<close> by (simp add: bit_mask_iff)
qed

lemma least_pow2_ge:
  fixes n :: nat
  shows "\<exists>k. n \<le> 2 ^ k \<and> (\<forall>j. n \<le> 2 ^ j \<longrightarrow> k \<le> j)"
proof -
  have ex: "\<exists>k. n \<le> 2 ^ k"
    by (intro exI [of _ n]) (simp add: less_imp_le)
  define k where "k = (LEAST k. n \<le> 2 ^ k)"
  from ex have "n \<le> 2 ^ k" unfolding k_def by (metis (mono_tags, lifting) LeastI)
  moreover have "\<forall>j. n \<le> 2 ^ j \<longrightarrow> k \<le> j" unfolding k_def by (simp add: Least_le)
  ultimately show ?thesis by blast
qed

lemma round_up_pow2_in_range:
  assumes "s \<noteq> 0" and "unat s \<le> 2 ^ 31"
  shows "\<exists>k. round_up_pow2 s = 2 ^ k \<and> k < 32 \<and> unat s \<le> 2 ^ k \<and> (\<forall>j. unat s \<le> 2 ^ j \<longrightarrow> k \<le> j)"
proof -
  obtain k where k: "unat s \<le> 2 ^ k" "\<forall>j. unat s \<le> 2 ^ j \<longrightarrow> k \<le> j"
    using least_pow2_ge by blast
  from assms(2) k(2) have k31: "k \<le> 31" by blast
  have pos: "0 < unat s" using assms(1) by (simp add: unat_gt_0)
  have x: "unat (s - 1) = unat s - 1"
    using assms(1) by (simp add: unat_minus_one)
  have up: "unat (s - 1) < 2 ^ k" using k(1) pos x by simp
  have lo: "k = 0 \<or> 2 ^ (k - 1) \<le> unat (s - 1)"
  proof (cases "k = 0")
    case False
    then have "\<not> unat s \<le> 2 ^ (k - 1)" using k(2) by (metis diff_less less_one not_le neq0_conv)
    then show ?thesis using x by (intro disjI2) linarith
  qed simp
  have "round_up_pow2 s = mask k + 1"
    by (simp add: round_up_pow2_def smear_right_eq_mask [OF up lo])
  then have "round_up_pow2 s = 2 ^ k" by (simp add: inc_mask_eq_exp)
  with k k31 show ?thesis by auto
qed

lemma round_up_pow2_wraps:
  assumes "s = 0 \<or> 2 ^ 31 < unat s"
  shows "round_up_pow2 s = 0"
proof -
  have lo: "2 ^ 31 \<le> unat (s - 1)"
  proof (cases "s = 0")
    case True
    have "unat (- 1 :: uint32) = 2 ^ 32 - 1"
      by (simp add: unsigned_minus_1_eq_mask mask_eq_exp_minus_1)
    with True show ?thesis by simp
  next
    case False
    then have "unat (s - 1) = unat s - 1" by (simp add: unat_minus_one)
    with assms False show ?thesis by simp
  qed
  have up: "unat (s - 1) < 2 ^ 32" using unsigned_less [of "s - 1"] by simp
  have "smear_right (s - 1) = mask 32" using smear_right_eq_mask [OF up] lo by simp
  then show ?thesis by (simp add: round_up_pow2_def inc_mask_eq_exp)
qed

lemma unat_pow2: "k < 32 \<Longrightarrow> unat ((2 :: uint32) ^ k) = 2 ^ k"
proof -
  assume k: "k < 32"
  have eq: "(2 :: uint32) ^ k = of_nat (2 ^ k)"
    by simp
  have lt: "(2::nat) ^ k < 2 ^ 32"
    using k by (intro power_strict_increasing) simp_all
  have "unat ((2 :: uint32) ^ k) = (2 ^ k) mod 2 ^ 32"
    unfolding eq unat_of_nat by simp
  with lt show ?thesis
    by simp
qed

lemma pow2_word_nonzero: "k < 32 \<Longrightarrow> (2 :: uint32) ^ k \<noteq> 0"
  by (simp add: exp_eq_zero_iff)

lemma word_ge1: "(x :: uint32) \<noteq> 0 \<Longrightarrow> 1 \<le> x"
  by (simp add: word_le_sub1)

lemma initial_hashIndices_pow2: "pow2_ge1 (initial_hashIndices s)"
proof (cases "s = 0 \<or> 2 ^ 31 < unat s")
  case True
  then have "initial_hashIndices s = 2 ^ 8"
    by (simp add: initial_hashIndices_def round_up_pow2_wraps)
  then show ?thesis
    unfolding pow2_ge1_def by (intro conjI exI [of _ 8]) simp_all
next
  case False
  then obtain k where k: "round_up_pow2 s = 2 ^ k" "k < 32"
    using round_up_pow2_in_range [of s] by auto
  then have nz: "round_up_pow2 s \<noteq> 0"
    by (simp add: pow2_word_nonzero)
  with k have "initial_hashIndices s = 2 ^ k"
    by (simp add: initial_hashIndices_def)
  moreover have "(1 :: uint32) \<le> 2 ^ k"
    using k(2) by (intro word_ge1 pow2_word_nonzero)
  ultimately show ?thesis
    unfolding pow2_ge1_def using k(2) by auto
qed

lemma initial_hashIndices_of_pow2:
  assumes "pow2_ge1 n"
  shows "initial_hashIndices n = n"
proof -
  from assms obtain k where k: "k < 32" "n = 2 ^ k"
    by (auto simp: pow2_ge1_def)
  have un: "unat n = 2 ^ k"
    using k by (simp add: unat_pow2)
  have "(2::nat) ^ k \<le> 2 ^ 31"
    using k(1) by (intro power_increasing) simp_all
  with un have le: "unat n \<le> 2 ^ 31"
    by simp
  have nz: "n \<noteq> 0"
    using k by (simp add: pow2_word_nonzero)
  from round_up_pow2_in_range [OF nz le]
  obtain j where j: "round_up_pow2 n = 2 ^ j" "j < 32" "unat n \<le> 2 ^ j"
    "\<forall>i. unat n \<le> 2 ^ i \<longrightarrow> j \<le> i"
    by blast
  from j(4) un have "j \<le> k"
    by simp
  moreover from j(3) un have "k \<le> j"
    by simp
  ultimately have "round_up_pow2 n = n"
    using j(1) k(2) by simp
  with nz show ?thesis
    by (simp add: initial_hashIndices_def)
qed

lemma hash_map_ctor_returns:
  "hash_map_ctor s h =
     Inr (h\<lparr>arrays := (arrays h)(fresh h \<mapsto> replicate (unat (initial_hashIndices s)) None),
            fresh := fresh h + 1\<rparr>,
          \<lparr>hashIndices = initial_hashIndices s, elementCount = 0, heads = Some (fresh h)\<rparr>)"
  by (simp add: hash_map_ctor_def new_array_def memsetHeads_def Let_def)

section \<open>Construction rounds the request up to a power of two\<close>

text \<open>
  C6. The constructor always returns, and its bucket count is the value of lines 112-118
  unless that value is 0, in which case it is 256. The value is 0 exactly for the request
  0 and for requests above \<open>2^31\<close>, where the 32-bit computation wraps around; for every
  other request it is the smallest power of two that is at least the request. The requests
  0, 5, 256 and 300 give 256, 8, 256 and 512 buckets.
\<close>

theorem ctor_bucketCount_rounding:
  "(\<exists>h1 m. hash_map_ctor storageSize h = Inr (h1, m) \<and>
      bucketCount m = (if round_up_pow2 storageSize = 0 then 256 else round_up_pow2 storageSize)) \<and>
   (round_up_pow2 storageSize = 0 \<longleftrightarrow> storageSize = 0 \<or> 2 ^ 31 < unat storageSize) \<and>
   (round_up_pow2 storageSize \<noteq> 0 \<longrightarrow>
      (\<exists>k. unat (round_up_pow2 storageSize) = 2 ^ k \<and> unat storageSize \<le> 2 ^ k \<and>
           (\<forall>j. unat storageSize \<le> 2 ^ j \<longrightarrow> k \<le> j))) \<and>
   initial_hashIndices 0 = 256 \<and> initial_hashIndices 5 = 8 \<and>
   initial_hashIndices 256 = 256 \<and> initial_hashIndices 300 = 512"
proof -
  have ret: "\<exists>h1 m. hash_map_ctor storageSize h = Inr (h1, m) \<and>
      bucketCount m = (if round_up_pow2 storageSize = 0 then 256 else round_up_pow2 storageSize)"
    by (simp add: hash_map_ctor_returns bucketCount_def initial_hashIndices_def)
  have zero: "round_up_pow2 storageSize = 0 \<longleftrightarrow> storageSize = 0 \<or> 2 ^ 31 < unat storageSize"
  proof
    assume z: "round_up_pow2 storageSize = 0"
    show "storageSize = 0 \<or> 2 ^ 31 < unat storageSize"
    proof (rule ccontr)
      assume "\<not> (storageSize = 0 \<or> 2 ^ 31 < unat storageSize)"
      then obtain k where "round_up_pow2 storageSize = 2 ^ k" "k < 32"
        using round_up_pow2_in_range [of storageSize] by auto
      with z show False
        by (simp add: pow2_word_nonzero)
    qed
  qed (rule round_up_pow2_wraps)
  have least: "\<exists>k. unat (round_up_pow2 storageSize) = 2 ^ k \<and> unat storageSize \<le> 2 ^ k \<and>
           (\<forall>j. unat storageSize \<le> 2 ^ j \<longrightarrow> k \<le> j)"
    if "round_up_pow2 storageSize \<noteq> 0"
  proof -
    from that zero have "storageSize \<noteq> 0" "unat storageSize \<le> 2 ^ 31"
      by auto
    from round_up_pow2_in_range [OF this]
    obtain k where k: "round_up_pow2 storageSize = 2 ^ k" "k < 32" "unat storageSize \<le> 2 ^ k"
      "\<forall>j. unat storageSize \<le> 2 ^ j \<longrightarrow> k \<le> j"
      by blast
    then have "unat (round_up_pow2 storageSize) = 2 ^ k"
      by (simp add: unat_pow2)
    with k show ?thesis
      by blast
  qed
  have vals: "initial_hashIndices 0 = 256 \<and> initial_hashIndices 5 = 8 \<and>
      initial_hashIndices 256 = 256 \<and> initial_hashIndices 300 = 512"
    by (simp add: initial_hashIndices_def round_up_pow2_def smear_right_def Let_def)
  from ret zero least vals show ?thesis
    by blast
qed

theorem ctor_bucketCount_rounding_witness:
  "round_up_pow2 300 \<noteq> 0 \<and> unat (round_up_pow2 300) = 2 ^ 9 \<and> unat (300 :: uint32) \<le> 2 ^ 9 \<and>
   (\<exists>h1 m. hash_map_ctor 300 (empty_heap :: nat heap) = Inr (h1, m) \<and> bucketCount m = 512)"
proof -
  have r: "round_up_pow2 300 = 512"
    by (simp add: round_up_pow2_def smear_right_def Let_def)
  from ctor_bucketCount_rounding [of 300 "empty_heap :: nat heap"] show ?thesis
    by (simp add: r)
qed

section \<open>Hashing masks the raw bits of the key\<close>

text \<open>
  C8. The bucket index of a key is the key's 32 bits, taken as they are, AND-ed with the
  bucket count minus one; the key -1 (all bits set) goes to bucket 255 of 256, not to
  bucket 1 as its absolute value would. Whenever the bucket count is not 0 the index is
  below the bucket count, and the count the constructor chooses is never 0.
\<close>

theorem hashThis_raw_mask:
  "hashThis m key = key AND (bucketCount m - 1) \<and>
   (bucketCount m \<noteq> 0 \<longrightarrow> unat (hashThis m key) < unat (bucketCount m)) \<and>
   initial_hashIndices storageSize \<noteq> 0 \<and>
   sint (- 1 :: int32) = - 1 \<and>
   hashThis \<lparr>hashIndices = 256, elementCount = 0, heads = None\<rparr> (- 1) = 255"
proof -
  have range: "unat (hashThis m key) < unat (bucketCount m)" if nz: "bucketCount m \<noteq> 0"
  proof -
    have "key AND (hashIndices m - 1) \<le> hashIndices m - 1"
      by (rule word_and_le1)
    then have "unat (key AND (hashIndices m - 1)) \<le> unat (hashIndices m - 1)"
      by (simp add: word_le_nat_alt)
    moreover have "unat (hashIndices m - 1) = unat (hashIndices m) - 1"
      using nz by (simp add: unat_minus_one bucketCount_def)
    moreover have "0 < unat (hashIndices m)"
      using nz by (simp add: unat_gt_0 bucketCount_def)
    ultimately show ?thesis
      by (simp add: hashThis_def bucketCount_def)
  qed
  have "initial_hashIndices storageSize \<noteq> 0"
    by (simp add: initial_hashIndices_def Let_def)
  moreover have "hashThis \<lparr>hashIndices = 256, elementCount = 0, heads = None\<rparr> (- 1) = 255"
    by (simp add: hashThis_def)
  ultimately show ?thesis
    using range by (simp add: hashThis_def bucketCount_def)
qed

theorem hashThis_raw_mask_witness:
  "bucketCount \<lparr>hashIndices = 256, elementCount = 0, heads = None\<rparr> \<noteq> 0 \<and>
   hashThis \<lparr>hashIndices = 256, elementCount = 0, heads = None\<rparr> (- 7) = 249 \<and>
   unat (hashThis \<lparr>hashIndices = 256, elementCount = 0, heads = None\<rparr> (- 7)) < 256"
  using hashThis_raw_mask [of "\<lparr>hashIndices = 256, elementCount = 0, heads = None\<rparr>" "- 7" 0]
  by (simp add: bucketCount_def hashThis_def)

section \<open>Evaluating calls on concrete maps\<close>

lemmas run_defs = and_then_def hash_map_ctor_returns initial_hashIndices_def round_up_pow2_def
  smear_right_def new_data_def new_node_def new_child_def operator_index_def hashThis_def
  load_head_def store_head_def deref_data_def delete_data_def unlink_node_def erase_def
  bucketDensity_def empty_heap_def read_ref_def write_ref_def size_hm_def empty_hm_def
  bucketCount_def clear_def memsetHeads_def Let_def
  index_loop.simps erase_loop.simps delete_node.simps count_chain.simps clear_chain.simps

lemma replicate_2: "replicate 2 x = [x, x]"
  by (simp add: numeral_2_eq_2)

lemma two_keys_reached:
  "and_then (Some (hash_map_ctor 2 (empty_heap :: int heap))) (\<lambda>(h0, m0).
   and_then (operator_index 0 h0 m0 1) (\<lambda>(r1, h1, m1).
   and_then (Some (write_ref h1 r1 10)) (\<lambda>h2.
   and_then (operator_index 0 h2 m1 3) (\<lambda>(r3, h3, m3).
   and_then (Some (write_ref h3 r3 30)) (\<lambda>h4. Some (Inr (h4, m3)))))))
   = Some (Inr (two_keys_heap, two_keys_map))"
  by (simp add: run_defs two_keys_heap_def two_keys_map_def replicate_2 fun_eq_iff)

lemma two_maps_reached:
  "hash_map_ctor 2 two_keys_heap = Inr (two_maps_heap, empty_map2)"
  by (simp add: hash_map_ctor_returns initial_hashIndices_def round_up_pow2_def smear_right_def
      Let_def replicate_2 two_maps_heap_def two_keys_heap_def empty_map2_def)

lemma two_keys_valid: "valid two_keys_heap two_keys_map"
proof -
  have c0: "chain two_keys_heap None []"
    by simp
  have c1: "chain two_keys_heap (Some 2) [2, 4]"
    by (simp add: two_keys_heap_def)
  have "\<exists>as. chain two_keys_heap ([None, Some 2] ! i) as" if "i < 2" for i
  proof (cases i)
    case 0
    with c0 show ?thesis by (intro exI [of _ "[]"]) simp
  next
    case (Suc j)
    with that have "i = 1" by simp
    with c1 show ?thesis by (intro exI [of _ "[2, 4]"]) simp
  qed
  moreover have "pow2_ge1 2"
    unfolding pow2_ge1_def by (intro conjI exI [of _ 1]) simp_all
  moreover have "heap_ok two_keys_heap"
    by (simp add: heap_ok_def two_keys_heap_def)
  ultimately show ?thesis
    by (simp add: valid_def two_keys_heap_def two_keys_map_def)
qed

lemma two_keys_copy:
  "\<exists>h2 m2. hash_map_copy_ctor two_keys_heap two_keys_map = Some (Inr (h2, m2))"
  apply (simp add: hash_map_copy_ctor_def run_defs two_keys_heap_def two_keys_map_def)
  apply (subst copy_from.simps, simp add: run_defs copy_node.simps)+
  done

section \<open>\<open>erase\<close> and \<open>clear\<close> on concrete maps\<close>

text \<open>
  C1. A map with 256 buckets receives key 1 and then \<open>erase(1)\<close>. The bucket of key 1 is
  empty afterwards (density 0), but \<open>size()\<close> is still 1: \<open>erase\<close> never assigns
  \<open>_elementCount\<close>. Accessing key 1 again gives a fresh value \<open>T()\<close> and \<open>size()\<close> 2,
  one more than before the \<open>erase\<close>. The result lists \<open>size()\<close> after the \<open>erase\<close>, the
  density after the \<open>erase\<close>, \<open>size()\<close> after the second access, and the value read.
\<close>

theorem erase_keeps_elementCount:
  "and_then (Some (hash_map_ctor 256 (empty_heap :: int heap))) (\<lambda>(h0, m0).
   and_then (operator_index 0 h0 m0 1) (\<lambda>(r1, h1, m1).
   and_then (erase h1 m1 1) (\<lambda>h2.
   and_then (bucketDensity h2 m1 1) (\<lambda>density.
   and_then (operator_index 0 h2 m1 1) (\<lambda>(r3, h3, m3).
     Some (Inr (size_hm m1, density, size_hm m3, read_ref h3 r3)))))))
   = Some (Inr (1, 0, 2, Inr 0))"
  by (simp add: run_defs)

text \<open>
  C2. A map with 256 buckets receives keys 1 and 257 (both in bucket 1, density 2), and 42
  is stored under 257. \<open>erase(1)\<close> makes the node of 257 the head of bucket 1 and then
  deletes the node of 1, whose destructor (lines 82-85) deletes its \<open>childNode\<close>, the node
  of 257, and that node's value. Afterwards the head of bucket 1 still is address 4, where
  no node lives any more, the value stored under 257 is gone, and both
  \<open>bucketDensity(257)\<close> and \<open>operator[](257)\<close> read the deleted node.
\<close>

theorem erase_destroys_rest_of_chain:
  "and_then (Some (hash_map_ctor 256 (empty_heap :: int heap))) (\<lambda>(h0, m0).
   and_then (operator_index 0 h0 m0 1) (\<lambda>(r1, h1, m1).
   and_then (operator_index 0 h1 m1 257) (\<lambda>(r2, h2, m2).
   and_then (Some (write_ref h2 r2 42)) (\<lambda>h3.
   and_then (bucketDensity h3 m2 1) (\<lambda>density.
   and_then (erase h3 m2 1) (\<lambda>h4.
     Some (Inr (density, read_ref h3 r2, read_ref h4 r2, load_head h4 m2 1,
                key_at h3 4, key_at h4 4,
                bucketDensity h4 m2 257, operator_index 0 h4 m2 257))))))))
   = Some (Inr (2, Inr 42, Inl Dangling, Inr (Some 4), Some 257, None,
               Some (Inl Dangling), Some (Inl Dangling)))"
  by (simp add: run_defs key_at_def)

text \<open>
  C3. A map with 2 buckets receives key 1 and then \<open>clear()\<close>. Every bucket is empty
  afterwards, but \<open>size()\<close> is still 1 and \<open>empty()\<close> is false: \<open>clear\<close> never assigns
  \<open>_elementCount\<close>. With keys 1 and 3 in one bucket, \<open>clear()\<close> does not get that far: the
  first \<open>delete toDelete\<close> destroys the whole chain through the node destructor, and the
  loop of lines 199-203 goes on to the node it has just destroyed.
\<close>

theorem clear_keeps_elementCount:
  "and_then (Some (hash_map_ctor 2 (empty_heap :: int heap))) (\<lambda>(h0, m0).
   and_then (operator_index 0 h0 m0 1) (\<lambda>(r1, h1, m1).
   and_then (clear h1 m1) (\<lambda>h2.
   and_then (bucketDensity h2 m1 0) (\<lambda>d0.
   and_then (bucketDensity h2 m1 1) (\<lambda>d1.
     Some (Inr (d0, d1, size_hm m1, empty_hm m1)))))))
   = Some (Inr (0, 0, 1, False)) \<and>
   clear two_keys_heap two_keys_map = Some (Inl Dangling)"
proof -
  have one: "and_then (Some (hash_map_ctor 2 (empty_heap :: int heap))) (\<lambda>(h0, m0).
   and_then (operator_index 0 h0 m0 1) (\<lambda>(r1, h1, m1).
   and_then (clear h1 m1) (\<lambda>h2.
   and_then (bucketDensity h2 m1 0) (\<lambda>d0.
   and_then (bucketDensity h2 m1 1) (\<lambda>d1.
     Some (Inr (d0, d1, size_hm m1, empty_hm m1)))))))
   = Some (Inr (0, 0, 1, False))"
    apply (simp add: run_defs)
    apply (subst clear_from.simps, simp add: run_defs)+
    done
  have two: "clear two_keys_heap two_keys_map = Some (Inl Dangling)"
    apply (simp add: run_defs two_keys_heap_def two_keys_map_def)
    apply (subst clear_from.simps, simp add: run_defs)+
    done
  from one two show ?thesis
    by (rule conjI)
qed

text \<open>
  C4. A map with 256 buckets receives keys 1, 257 and 513, chained in bucket 1 at the
  addresses 2, 4 and 6. The unlinking step of \<open>erase(257)\<close> (lines 223-228) sets the
  \<open>childNode\<close> of the node of 1 to the node of 513, and leaves the \<open>parentNode\<close> of the node
  of 513 pointing at the node of 257, which is then deleted. The result lists the key,
  \<open>parentNode\<close> and \<open>childNode\<close> of the node being erased, then the \<open>childNode\<close> of its
  predecessor and the \<open>parentNode\<close> of its successor after the unlinking.
\<close>

theorem erase_leaves_stale_parent:
  "and_then (Some (hash_map_ctor 256 (empty_heap :: int heap))) (\<lambda>(h0, m0).
   and_then (operator_index 0 h0 m0 1) (\<lambda>(r1, h1, m1).
   and_then (operator_index 0 h1 m1 257) (\<lambda>(r2, h2, m2).
   and_then (operator_index 0 h2 m2 513) (\<lambda>(r3, h3, m3).
     case nodes h3 4 of
       None \<Rightarrow> None
     | Some n \<Rightarrow>
         and_then (Some (unlink_node h3 m3 (hashThis m3 257) n)) (\<lambda>h4.
           Some (Inr (rawKey n, parentNode n, childNode n,
                      map_option childNode (nodes h4 2), map_option parentNode (nodes h4 6))))))))
   = Some (Inr (257, Some 2, Some 6, Some (Some 6), Some (Some 4)))"
  by (simp add: run_defs)

section \<open>The bucket count across the operations\<close>

lemma index_loop_members:
  assumes "index_loop dflt h m a key = Some y"
  shows "\<forall>r h1 m1. y = Inr (r, h1, m1) \<longrightarrow> hashIndices m1 = hashIndices m \<and> heads m1 = heads m"
  using assms
proof (induction rule: index_loop.raw_induct [rotated 1, consumes 1, case_names step])
  case (step loop dflt h m curNode key y)
  show ?case
  proof (cases "nodes h curNode")
    case None
    with step(2) show ?thesis by auto
  next
    case (Some n)
    show ?thesis
    proof (cases "rawKey n = key")
      case True
      with Some step(2) show ?thesis
        by (auto split: sum.splits)
    next
      case False
      show ?thesis
      proof (cases "childNode n")
        case None
        with Some False step(2) show ?thesis
          by (auto simp: Let_def split: prod.splits)
      next
        case (Some c)
        with \<open>nodes h curNode = Some n\<close> False step(2)
        have "loop dflt h m c key = Some y" by simp
        then show ?thesis by (rule step(1))
      qed
    qed
  qed
qed

lemma operator_index_members:
  assumes "operator_index dflt h m key = Some (Inr (r, h1, m1))"
  shows "hashIndices m1 = hashIndices m \<and> heads m1 = heads m"
  using assms index_loop_members [of dflt h m _ key "Inr (r, h1, m1)"]
  by (auto simp: operator_index_def Let_def split: sum.splits option.splits prod.splits)

lemma swap_exchanges: "swap (a, b) = (b, a)"
  by (cases a, cases b) (simp add: swap_def)

lemma copy_ctor_members:
  assumes "hash_map_copy_ctor h other = Some (Inr (h2, m2))"
  shows "m2 = \<lparr>hashIndices = initial_hashIndices (hashIndices other), elementCount = 0, heads = Some (fresh h)\<rparr>"
  using assms
  by (auto simp: hash_map_copy_ctor_def hash_map_ctor_returns split: option.splits sum.splits)

text \<open>
  C9, as the code has it. The constructor and the copy constructor yield a bucket count
  that is a power of two and at least 1 (the copy has the count of its source when that
  is one); \<open>operator[]\<close> leaves the count as it is (\<open>erase\<close> and \<open>clear\<close> assign no member
  at all); \<open>swap\<close> and move assignment exchange the two counts. The move constructor
  gives the new map the count of its source and leaves the source with the count 0 of the
  default member initialisers.
\<close>

theorem bucketCount_power_of_two_amended:
  "(\<exists>h1 m1. hash_map_ctor storageSize h = Inr (h1, m1) \<and> pow2_ge1 (bucketCount m1)) \<and>
   (hash_map_copy_ctor h other = Some (Inr (h2, m2)) \<longrightarrow>
      pow2_ge1 (bucketCount m2) \<and> (pow2_ge1 (bucketCount other) \<longrightarrow> bucketCount m2 = bucketCount other)) \<and>
   (operator_index dflt h m key = Some (Inr (r, h3, m3)) \<longrightarrow> bucketCount m3 = bucketCount m) \<and>
   bucketCount (fst (swap (a, b))) = bucketCount b \<and>
   bucketCount (snd (swap (a, b))) = bucketCount a \<and>
   bucketCount (fst (move_assign b a)) = bucketCount a \<and>
   bucketCount (snd (move_assign b a)) = bucketCount b \<and>
   bucketCount (fst (hash_map_move_ctor a)) = bucketCount a \<and>
   bucketCount (snd (hash_map_move_ctor a)) = 0"
proof -
  have ctor: "\<exists>h1 m1. hash_map_ctor storageSize h = Inr (h1, m1) \<and> pow2_ge1 (bucketCount m1)"
    by (simp add: hash_map_ctor_returns bucketCount_def initial_hashIndices_pow2)
  have copy: "pow2_ge1 (bucketCount m2) \<and> (pow2_ge1 (bucketCount other) \<longrightarrow> bucketCount m2 = bucketCount other)"
    if "hash_map_copy_ctor h other = Some (Inr (h2, m2))"
    using copy_ctor_members [OF that]
    by (simp add: bucketCount_def initial_hashIndices_pow2 initial_hashIndices_of_pow2)
  have index: "bucketCount m3 = bucketCount m"
    if "operator_index dflt h m key = Some (Inr (r, h3, m3))"
    using operator_index_members [OF that] by (simp add: bucketCount_def)
  have moves: "bucketCount (fst (swap (a, b))) = bucketCount b \<and>
   bucketCount (snd (swap (a, b))) = bucketCount a \<and>
   bucketCount (fst (move_assign b a)) = bucketCount a \<and>
   bucketCount (snd (move_assign b a)) = bucketCount b \<and>
   bucketCount (fst (hash_map_move_ctor a)) = bucketCount a \<and>
   bucketCount (snd (hash_map_move_ctor a)) = 0"
    by (simp add: swap_exchanges move_assign_def hash_map_move_ctor_def default_members_def bucketCount_def)
  from ctor copy index moves show ?thesis
    by blast
qed

theorem bucketCount_power_of_two_amended_witness:
  "pow2_ge1 (bucketCount two_keys_map) \<and>
   (\<exists>h2 m2. hash_map_copy_ctor two_keys_heap two_keys_map = Some (Inr (h2, m2)) \<and>
      pow2_ge1 (bucketCount m2) \<and> bucketCount m2 = 2) \<and>
   (\<exists>r h3 m3. operator_index 0 two_keys_heap two_keys_map 5 = Some (Inr (r, h3, m3)) \<and>
      bucketCount m3 = 2)"
proof -
  have p: "pow2_ge1 (bucketCount two_keys_map)"
    unfolding pow2_ge1_def by (intro conjI exI [of _ 1]) (simp_all add: bucketCount_def two_keys_map_def)
  obtain h2 m2 where c: "hash_map_copy_ctor two_keys_heap two_keys_map = Some (Inr (h2, m2))"
    using two_keys_copy by blast
  obtain r h3 m3 where i: "operator_index 0 two_keys_heap two_keys_map 5 = Some (Inr (r, h3, m3))"
    by (simp add: run_defs two_keys_heap_def two_keys_map_def)
  have b: "bucketCount two_keys_map = 2"
    by (simp add: bucketCount_def two_keys_map_def)
  from bucketCount_power_of_two_amended
    [of 2 two_keys_heap two_keys_map h2 m2 0 two_keys_map 5 r h3 m3 two_keys_map two_keys_map]
    p c i b
  show ?thesis
    by simp
qed

text \<open>
  C9 as stated fails: the source of a move construction is left with bucket count 0,
  which is neither at least 1 nor a power of two.
\<close>

theorem moved_from_bucketCount_zero:
  "\<not> pow2_ge1 (bucketCount (snd (hash_map_move_ctor
        \<lparr>hashIndices = 256, elementCount = 0, heads = Some 0\<rparr>)))"
  by (simp add: swap_exchanges hash_map_move_ctor_def default_members_def bucketCount_def pow2_ge1_def)

section \<open>Move and swap\<close>

text \<open>
  C10, as the code has it. \<open>swap(A, B)\<close> and \<open>B = std::move(A)\<close> exchange the members of
  the two maps and touch nothing on the free store: \<open>B\<close> ends with exactly the members
  \<open>A\<close> had (bucket count, element count and the pointer to the same array of heads, hence
  the same chains), and \<open>A\<close> ends with the members \<open>B\<close> had. Only move construction leaves
  the source zeroed, because there \<open>B\<close> starts from the default member initialisers: size
  0, bucket count 0 and a null array of heads.
\<close>

theorem swap_and_move_exchange:
  "swap (a, b) = (b, a) \<and> move_assign b a = (a, b) \<and>
   hash_map_move_ctor a = (a, default_members) \<and>
   size_hm default_members = 0 \<and> empty_hm default_members \<and>
   bucketCount default_members = 0 \<and> heads default_members = None"
  by (simp add: swap_exchanges move_assign_def hash_map_move_ctor_def default_members_def
      size_hm_def empty_hm_def bucketCount_def)

text \<open>
  C10 as stated fails: after \<open>B = std::move(A)\<close> and after \<open>swap(A, B)\<close> with a \<open>B\<close> that
  held one element, \<open>A\<close> holds that element and is not empty.
\<close>

theorem move_assign_source_not_emptied:
  "\<not> empty_hm (snd (move_assign \<lparr>hashIndices = 256, elementCount = 1, heads = Some 0\<rparr>
                                  \<lparr>hashIndices = 256, elementCount = 2, heads = Some 5\<rparr>)) \<and>
   \<not> empty_hm (fst (swap (\<lparr>hashIndices = 256, elementCount = 2, heads = Some 5\<rparr>,
                             \<lparr>hashIndices = 256, elementCount = 1, heads = Some 0\<rparr>)))"
  by (simp add: swap_exchanges move_assign_def empty_hm_def)

section \<open>Chains on the free store\<close>

lemma chain_None [simp]: "chain h None as \<longleftrightarrow> as = []"
  by (cases as) auto

lemma chain_Some:
  "chain h (Some a) as \<longleftrightarrow>
     (\<exists>n d bs. as = a # bs \<and> nodes h a = Some n \<and> dataPointer n = Some d \<and>
        datas h d \<noteq> None \<and> chain h (childNode n) bs)"
  by (cases as) (auto split: option.splits)

lemma chain_unique: "chain h p as \<Longrightarrow> chain h p bs \<Longrightarrow> as = bs"
proof (induction as arbitrary: p bs)
  case Nil
  then show ?case by simp
next
  case (Cons a as)
  from Cons.prems(1) have p: "p = Some a" by simp
  with Cons.prems show ?case
    by (auto simp: chain_Some dest: Cons.IH)
qed

lemma chain_drop: "chain h p (xs @ ys) \<Longrightarrow> \<exists>q. chain h q ys"
proof (induction xs arbitrary: p)
  case Nil
  then show ?case by auto
next
  case (Cons x xs)
  then show ?case by (auto split: option.splits)
qed

lemma chain_distinct: "chain h p as \<Longrightarrow> distinct as"
proof (induction as arbitrary: p)
  case Nil
  then show ?case by simp
next
  case (Cons a as)
  from Cons.prems obtain n where n: "nodes h a = Some n" "chain h (childNode n) as"
    by (auto split: option.splits)
  have "a \<notin> set as"
  proof
    assume "a \<in> set as"
    then obtain xs ys where split: "as = xs @ a # ys"
      by (auto simp: in_set_conv_decomp)
    with n(2) obtain q where "chain h q (a # ys)"
      using chain_drop by blast
    then have "chain h (childNode n) ys"
      using n(1) by (auto split: option.splits)
    with n(2) have "ys = as" using chain_unique by blast
    with split show False by simp
  qed
  with Cons.IH [OF n(2)] show ?case by simp
qed

lemma chain_live: "chain h p as \<Longrightarrow> a \<in> set as \<Longrightarrow> nodes h a \<noteq> None"
  by (induction as arbitrary: p) (auto split: option.splits)

lemma chain_last_child:
  "chain h p as \<Longrightarrow> as \<noteq> [] \<Longrightarrow> \<exists>t. nodes h (last as) = Some t \<and> childNode t = None"
  by (induction as arbitrary: p) (auto split: option.splits)

lemma chain_agree:
  assumes "chain h p as" "\<forall>a\<in>set as. nodes h' a = nodes h a"
    "\<forall>d. datas h d \<noteq> None \<longrightarrow> datas h' d = datas h d"
  shows "chain h' p as \<and> map (entry h') as = map (entry h) as \<and>
         (\<forall>a\<in>set as. data_at h' a = data_at h a)"
  using assms(1,2)
proof (induction as arbitrary: p)
  case Nil
  then show ?case by simp
next
  case (Cons a as)
  from Cons.prems(1) obtain n d where n: "p = Some a" "nodes h a = Some n"
    "dataPointer n = Some d" "datas h d \<noteq> None" "chain h (childNode n) as"
    by (auto split: option.splits)
  from Cons.prems(2) n have n': "nodes h' a = Some n"
    by simp
  from assms(3) n(4) have d': "datas h' d = datas h d"
    by simp
  from Cons.IH [OF n(5)] Cons.prems(2)
  have ih: "chain h' (childNode n) as" "map (entry h') as = map (entry h) as"
    "\<forall>a\<in>set as. data_at h' a = data_at h a"
    by simp_all
  from n n' d' ih show ?case
    by (simp add: entry_def data_at_def)
qed

lemma chain_below_fresh:
  assumes "heap_ok h" "chain h p as" "a \<in> set as"
  shows "a < fresh h \<and> (\<exists>d. data_at h a = Some d \<and> d < fresh h)"
  using assms(2,3)
proof (induction as arbitrary: p)
  case Nil
  then show ?case by simp
next
  case (Cons b bs)
  from Cons.prems(1) obtain n d where n: "p = Some b" "nodes h b = Some n"
    "dataPointer n = Some d" "datas h d \<noteq> None" "chain h (childNode n) bs"
    by (auto split: option.splits)
  from assms(1) n have "b < fresh h" "d < fresh h"
    by (auto simp: heap_ok_def not_le [symmetric])
  with n Cons show ?case
    by (auto simp: data_at_def)
qed

lemma chain_mono:
  assumes "heap_ok h" "chain h p as" "nodes h \<subseteq>\<^sub>m nodes h'" "datas h \<subseteq>\<^sub>m datas h'"
  shows "chain h' p as \<and> map (entry h') as = map (entry h) as \<and>
         (\<forall>a\<in>set as. data_at h' a = data_at h a)"
proof (rule chain_agree [OF assms(2)])
  show "\<forall>a\<in>set as. nodes h' a = nodes h a"
    using chain_live [OF assms(2)] assms(3) by (auto simp: map_le_def dom_def)
  show "\<forall>d. datas h d \<noteq> None \<longrightarrow> datas h' d = datas h d"
    using assms(4) by (auto simp: map_le_def dom_def)
qed

lemma index_loop_found:
  assumes "chain h (Some a) (xs @ x # ys)" "\<forall>y\<in>set xs. key_at h y \<noteq> Some key"
    "nodes h x = Some n" "rawKey n = key" "dataPointer n = Some d"
  shows "index_loop dflt h m a key = Some (Inr (d, h, m))"
  using assms
proof (induction xs arbitrary: a)
  case Nil
  then have "a = x" "datas h d \<noteq> None"
    by (auto simp: chain_Some)
  with Nil show ?case
    by (subst index_loop.simps) (auto simp: deref_data_def)
next
  case (Cons b xs)
  from Cons.prems(1) obtain nb where nb: "a = b" "nodes h b = Some nb"
    "chain h (childNode nb) (xs @ x # ys)"
    by (auto split: option.splits)
  from nb(3) obtain c where c: "childNode nb = Some c"
    by (cases "childNode nb") auto
  from Cons.prems(2) nb have ne: "rawKey nb \<noteq> key"
    by (auto simp: key_at_def)
  have "index_loop dflt h m c key = Some (Inr (d, h, m))"
    using Cons.IH [of c] nb(3) c Cons.prems by simp
  with nb c ne show ?case
    by (subst index_loop.simps) simp
qed

lemma index_loop_absent:
  assumes "chain h (Some a) as" "\<forall>y\<in>set as. key_at h y \<noteq> Some key" "nodes h (last as) = Some t"
  shows "index_loop dflt h m a key =
     Some (Inr (fst (new_child dflt h (last as) t key), snd (new_child dflt h (last as) t key),
                m\<lparr>elementCount := elementCount m + 1\<rparr>))"
  using assms
proof (induction as arbitrary: a)
  case Nil
  then show ?case by simp
next
  case (Cons b bs)
  from Cons.prems(1) obtain nb where nb: "a = b" "nodes h b = Some nb" "chain h (childNode nb) bs"
    by (auto split: option.splits)
  from Cons.prems(2) nb have ne: "rawKey nb \<noteq> key"
    by (auto simp: key_at_def)
  show ?case
  proof (cases bs)
    case Nil
    with nb Cons.prems(3) have "childNode nb = None" "t = nb"
      by auto
    with nb ne Nil show ?thesis
      by (subst index_loop.simps) (simp add: Let_def split: prod.splits)
  next
    case (Cons c cs)
    with nb have c: "childNode nb = Some c"
      by simp
    have "index_loop dflt h m c key =
     Some (Inr (fst (new_child dflt h (last bs) t key), snd (new_child dflt h (last bs) t key),
                m\<lparr>elementCount := elementCount m + 1\<rparr>))"
      using Cons.IH [of c] nb(3) c Cons.prems Cons by simp
    with nb c ne Cons show ?thesis
      by (subst index_loop.simps) simp
  qed
qed

lemma new_child_eq:
  "new_child dflt h c t key =
     (fresh h,
      h\<lparr>datas := (datas h)(fresh h \<mapsto> dflt), fresh := fresh h + 2,
        nodes := (nodes h)(fresh h + 1 \<mapsto> \<lparr>rawKey = key, dataPointer = Some (fresh h),
                                              parentNode = Some c, childNode = None\<rparr>,
                           c \<mapsto> t\<lparr>childNode := Some (fresh h + 1)\<rparr>)\<rparr>)"
  by (simp add: new_child_def new_data_def new_node_def Let_def)

lemma chain_after_new_child:
  assumes ok: "heap_ok h" and ch: "chain h p as" and ne: "as \<noteq> []"
    and t: "nodes h (last as) = Some t"
  shows "chain (snd (new_child dflt h (last as) t key)) p (as @ [fresh h + 1])"
  using ch ne t
proof (induction as arbitrary: p)
  case Nil
  then show ?case by simp
next
  case (Cons a as)
  let ?h = "snd (new_child dflt h (last (a # as)) t key)"
  from Cons.prems(1) obtain n d where n: "p = Some a" "nodes h a = Some n"
    "dataPointer n = Some d" "datas h d \<noteq> None" "chain h (childNode n) as"
    by (auto split: option.splits)
  from ok n have lt: "a < fresh h" "d < fresh h"
    by (auto simp: heap_ok_def not_le [symmetric])
  have d: "datas ?h d \<noteq> None"
    using n(4) lt by (simp add: new_child_eq)
  show ?case
  proof (cases as)
    case Nil
    with n Cons.prems have "t = n" "childNode n = None"
      by auto
    with n lt Nil d show ?thesis
      by (simp add: new_child_eq)
  next
    case (Cons b bs)
    have dist: "distinct (a # as)"
      using Cons.prems(1) by (rule chain_distinct)
    with Cons have "a \<noteq> last as"
      by auto
    then have na: "nodes ?h a = Some n"
      using n lt Cons by (simp add: new_child_eq)
    have "chain (snd (new_child dflt h (last as) t key)) (childNode n) (as @ [fresh h + 1])"
      using Cons.IH [OF n(5)] Cons Cons.prems(3) by simp
    with na n d Cons show ?thesis
      by simp
  qed
qed

lemma key_at_after_new_child:
  assumes "heap_ok h" "nodes h c = Some t" "nodes h a \<noteq> None"
  shows "key_at (snd (new_child dflt h c t key)) a = key_at h a"
proof -
  from assms have "a < fresh h"
    by (auto simp: heap_ok_def not_le [symmetric])
  with assms show ?thesis
    by (auto simp: new_child_eq key_at_def)
qed

lemma count_chain_length:
  "chain h p as \<Longrightarrow> count_chain h p c = Some (Inr (c + of_nat (length as)))"
proof (induction as arbitrary: p c)
  case Nil
  then show ?case by (subst count_chain.simps) simp
next
  case (Cons a as)
  then obtain n where n: "p = Some a" "nodes h a = Some n" "chain h (childNode n) as"
    by (auto split: option.splits)
  from Cons.IH [OF n(3), of "c + 1"] n show ?case
    by (subst count_chain.simps) (simp add: ac_simps)
qed

lemma hashThis_in_range:
  assumes "hashIndices m \<noteq> 0"
  shows "unat (hashThis m key) < unat (hashIndices m)"
proof -
  have "key AND (hashIndices m - 1) \<le> hashIndices m - 1"
    by (rule word_and_le1)
  then have "unat (key AND (hashIndices m - 1)) \<le> unat (hashIndices m - 1)"
    by (simp add: word_le_nat_alt)
  moreover have "unat (hashIndices m - 1) = unat (hashIndices m) - 1"
    using assms by (simp add: unat_minus_one)
  moreover have "0 < unat (hashIndices m)"
    using assms by (simp add: unat_gt_0)
  ultimately show ?thesis
    by (simp add: hashThis_def)
qed

lemma pow2_ge1_nonzero: "pow2_ge1 n \<Longrightarrow> n \<noteq> 0"
  by (auto simp: pow2_ge1_def pow2_word_nonzero)

text \<open>What a well-formed map gives: the bucket of a key has a head with a chain behind it.\<close>

lemma valid_bucket:
  assumes "valid h m"
  obtains t xs as where "heads m = Some t" "arrays h t = Some xs"
    "unat (hashThis m key) < length xs"
    "load_head h m (hashThis m key) = Inr (xs ! unat (hashThis m key))"
    "chain h (xs ! unat (hashThis m key)) as"
proof -
  from assms obtain t xs where t: "heads m = Some t" "arrays h t = Some xs"
    "length xs = unat (hashIndices m)" "\<forall>i<length xs. \<exists>as. chain h (xs ! i) as"
    by (auto simp: valid_def split: option.splits)
  from assms have "hashIndices m \<noteq> 0"
    by (auto simp: valid_def dest: pow2_ge1_nonzero)
  then have r: "unat (hashThis m key) < length xs"
    using t(3) by (simp add: hashThis_in_range)
  with t(4) obtain as where "chain h (xs ! unat (hashThis m key)) as"
    by blast
  moreover have "load_head h m (hashThis m key) = Inr (xs ! unat (hashThis m key))"
    using t r by (simp add: load_head_def)
  ultimately show thesis
    using t r that by blast
qed

lemma holds_key_iff:
  assumes "load_head h m (hashThis m key) = Inr p" "chain h p as"
  shows "holds_key h m key \<longleftrightarrow> Some key \<in> key_at h ` set as"
  using assms unfolding holds_key_def by (auto dest: chain_unique)

lemma operator_index_empty_bucket:
  assumes hd: "heads m = Some t" and arr: "arrays h t = Some xs"
    and r: "unat (hashThis m key) < length xs" and e: "xs ! unat (hashThis m key) = None"
  shows "operator_index dflt h m key =
     Some (Inr (fresh h,
       h\<lparr>datas := (datas h)(fresh h \<mapsto> dflt), fresh := fresh h + 2,
         nodes := (nodes h)(fresh h + 1 \<mapsto> \<lparr>rawKey = key, dataPointer = Some (fresh h),
                                              parentNode = None, childNode = None\<rparr>),
         arrays := (arrays h)(t \<mapsto> xs[unat (hashThis m key) := Some (fresh h + 1)])\<rparr>,
       m\<lparr>elementCount := elementCount m + 1\<rparr>))"
  using hd arr r e
  by (simp add: operator_index_def load_head_def store_head_def new_data_def new_node_def Let_def)

lemma operator_index_found:
  assumes lh: "load_head h m (hashThis m key) = Inr (Some a)" and ch: "chain h (Some a) as"
    and k: "Some key \<in> key_at h ` set as"
  shows "\<exists>d. operator_index dflt h m key = Some (Inr (d, h, m))"
proof -
  from k have "\<exists>x\<in>set as. key_at h x = Some key"
    by auto
  then obtain ys z zs where sp: "as = ys @ z # zs" "key_at h z = Some key"
    "\<forall>y\<in>set ys. key_at h y \<noteq> Some key"
    using split_list_first_prop [of as "\<lambda>x. key_at h x = Some key"] by blast
  from sp(1) ch have "\<exists>q. chain h q (z # zs)"
    using chain_drop by blast
  then obtain n d where n: "nodes h z = Some n" "dataPointer n = Some d"
    by (auto split: option.splits)
  with sp(2) have "rawKey n = key"
    by (simp add: key_at_def)
  with ch sp n have "index_loop dflt h m a key = Some (Inr (d, h, m))"
    using index_loop_found [of h a ys z zs key n d dflt m] by simp
  with lh show ?thesis
    by (simp add: operator_index_def)
qed

lemma chain_None_ex: "\<exists>as. chain h None as"
  by (intro exI [of _ "[]"]) simp

lemma hash_map_ctor_valid:
  assumes "heap_ok h" "hash_map_ctor s h = Inr (h1, m)"
  shows "valid h1 m"
proof -
  from assms(2) have h1: "h1 = h\<lparr>arrays := (arrays h)(fresh h \<mapsto> replicate (unat (initial_hashIndices s)) None),
            fresh := fresh h + 1\<rparr>"
    and m: "m = \<lparr>hashIndices = initial_hashIndices s, elementCount = 0, heads = Some (fresh h)\<rparr>"
    by (simp_all add: hash_map_ctor_returns)
  have "heap_ok h1"
    using assms(1) by (simp add: heap_ok_def h1)
  moreover have "pow2_ge1 (hashIndices m)"
    by (simp add: m initial_hashIndices_pow2)
  ultimately show ?thesis
    by (simp add: valid_def h1 m chain_None_ex del: chain_None)
qed

lemma chain_ends_at_childless:
  assumes "chain h p as" "t \<in> set as" "nodes h t = Some tn" "childNode tn = None"
  shows "last as = t"
  using assms(1,2)
proof (induction as arbitrary: p)
  case Nil
  then show ?case by simp
next
  case (Cons a as)
  from Cons.prems(1) obtain n where n: "nodes h a = Some n" "chain h (childNode n) as"
    by (auto split: option.splits)
  show ?case
  proof (cases "a = t")
    case True
    with n assms(3,4) have "as = []" by simp
    with True show ?thesis by simp
  next
    case False
    with Cons.prems(2) have "t \<in> set as" by simp
    with Cons.IH [OF n(2)] show ?thesis by auto
  qed
qed

lemma chain_survives_new_child:
  assumes ok: "heap_ok h" and t: "nodes h t = Some tn" "childNode tn = None"
    and ch: "chain h p as"
  shows "\<exists>bs. chain (snd (new_child dflt h t tn key)) p bs"
proof (cases "t \<in> set as")
  case True
  then have ne: "as \<noteq> []" by auto
  from chain_ends_at_childless [OF ch True t] have l: "last as = t" .
  from chain_after_new_child [OF ok ch ne, of tn dflt key] t(1) l
  show ?thesis by auto
next
  case False
  have live: "\<forall>a\<in>set as. a < fresh h"
    using chain_below_fresh [OF ok ch] by blast
  have "chain (snd (new_child dflt h t tn key)) p as \<and>
        map (entry (snd (new_child dflt h t tn key))) as = map (entry h) as \<and>
        (\<forall>a\<in>set as. data_at (snd (new_child dflt h t tn key)) a = data_at h a)"
  proof (rule chain_agree [OF ch])
    show "\<forall>a\<in>set as. nodes (snd (new_child dflt h t tn key)) a = nodes h a"
      using False live by (auto simp: new_child_eq)
    show "\<forall>d. datas h d \<noteq> None \<longrightarrow> datas (snd (new_child dflt h t tn key)) d = datas h d"
      using ok by (auto simp: new_child_eq heap_ok_def)
  qed
  then show ?thesis by blast
qed

lemma operator_index_valid:
  assumes v: "valid h m" and run: "operator_index dflt h m key = Some (Inr (r, h1, m1))"
  shows "valid h1 m1"
proof -
  from v have ok: "heap_ok h" and p2: "pow2_ge1 (hashIndices m)"
    by (simp_all add: valid_def)
  from v obtain t xs where a: "heads m = Some t" "arrays h t = Some xs"
    "length xs = unat (hashIndices m)" "\<forall>j<length xs. \<exists>as. chain h (xs ! j) as"
    by (auto simp: valid_def split: option.splits)
  from v obtain t' xs' as where b: "heads m = Some t'" "arrays h t' = Some xs'"
    "unat (hashThis m key) < length xs'"
    "load_head h m (hashThis m key) = Inr (xs' ! unat (hashThis m key))"
    "chain h (xs' ! unat (hashThis m key)) as"
    by (rule valid_bucket)
  with a have same: "t' = t" "xs' = xs" by simp_all
  note b = b [unfolded same]
  let ?i = "unat (hashThis m key)"
  let ?m1 = "m\<lparr>elementCount := elementCount m + 1\<rparr>"
  have tlive: "t < fresh h"
    using ok a(2) by (auto simp: heap_ok_def not_le [symmetric])
  show ?thesis
  proof (cases "xs ! ?i")
    case None
    define h2 where "h2 = h\<lparr>datas := (datas h)(fresh h \<mapsto> dflt), fresh := fresh h + 2,
        nodes := (nodes h)(fresh h + 1 \<mapsto> \<lparr>rawKey = key, dataPointer = Some (fresh h),
                                              parentNode = None, childNode = None\<rparr>),
        arrays := (arrays h)(t \<mapsto> xs[?i := Some (fresh h + 1)])\<rparr>"
    have "operator_index dflt h m key = Some (Inr (fresh h, h2, ?m1))"
      unfolding h2_def using b(1,2,3) None by (rule operator_index_empty_bucket)
    with run have eq: "h1 = h2" "m1 = ?m1" by simp_all
    have ok2: "heap_ok h2"
      using ok tlive by (auto simp: heap_ok_def h2_def)
    have le: "nodes h \<subseteq>\<^sub>m nodes h2" "datas h \<subseteq>\<^sub>m datas h2"
      using ok by (auto simp: map_le_def h2_def heap_ok_def)
    have "\<exists>as. chain h2 (xs[?i := Some (fresh h + 1)] ! j) as" if j: "j < length xs" for j
    proof (cases "j = ?i")
      case True
      have "chain h2 (Some (fresh h + 1)) [fresh h + 1]"
        by (simp add: h2_def)
      with True j show ?thesis
        by (intro exI [of _ "[fresh h + 1]"]) simp
    next
      case False
      from a(4) j obtain bs where "chain h (xs ! j) bs" by blast
      from chain_mono [OF ok this le] False show ?thesis by auto
    qed
    with ok2 p2 a(3) show ?thesis
      unfolding eq by (simp add: valid_def h2_def a(1))
  next
    case (Some c)
    with b(5) have ne: "as \<noteq> []" by auto
    show ?thesis
    proof (cases "Some key \<in> key_at h ` set as")
      case True
      from operator_index_found [OF _ _ True, of m c dflt] b(4,5) Some run
      have "h1 = h" "m1 = m"
        by auto
      with v show ?thesis
        by simp
    next
      case False
      from b(5) ne obtain tn where tn: "nodes h (last as) = Some tn" "childNode tn = None"
        using chain_last_child by blast
      define h2 where "h2 = snd (new_child dflt h (last as) tn key)"
      have absent: "\<forall>y\<in>set as. key_at h y \<noteq> Some key"
        using False by (metis imageI)
      have "index_loop dflt h m c key = Some (Inr (fresh h, h2, ?m1))"
        using index_loop_absent [of h c as key tn dflt m] b(5) Some absent tn(1)
        by (simp add: h2_def new_child_eq)
      with b(4) Some run have eq: "h1 = h2" "m1 = ?m1"
        by (simp_all add: operator_index_def)
      have lastlive: "last as < fresh h"
        using ok tn(1) by (auto simp: heap_ok_def not_le [symmetric])
      have ok2: "heap_ok h2"
        using ok lastlive by (auto simp: heap_ok_def h2_def new_child_eq)
      have arr: "arrays h2 = arrays h"
        by (simp add: h2_def new_child_eq)
      have "\<exists>bs. chain h2 (xs ! j) bs" if j: "j < length xs" for j
      proof -
        from a(4) j obtain bs where "chain h (xs ! j) bs" by blast
        from chain_survives_new_child [OF ok tn this] show ?thesis
          by (simp add: h2_def)
      qed
      with ok2 p2 a show ?thesis
        unfolding eq by (simp add: valid_def arr)
    qed
  qed
qed

section \<open>Two accesses in a row\<close>

text \<open>
  Two calls in a row. On a well-formed map \<open>operator[](key)\<close> returns a reference, and a
  second call with the same key that follows at once returns the same reference and changes
  nothing at all: neither the store nor the members (so no node is created, no chain is
  touched, \<open>size()\<close> grows by 0). When the key was already held, the first call changes
  nothing either. When it was not, the first call makes \<open>size()\<close> grow by exactly 1 (in
  \<open>uint32_t\<close>, so from \<open>2^32 - 1\<close> to 0), makes the bucket one node longer, and the
  reference leads to the value \<open>T()\<close>. Afterwards the key is held and the map is
  well-formed again. Nothing is said here about calls with other operations in between.
\<close>

theorem operator_index_idempotent:
  assumes v: "valid h m"
  shows "\<exists>r h1 m1 n.
     operator_index dflt h m key = Some (Inr (r, h1, m1)) \<and>
     operator_index dflt h1 m1 key = Some (Inr (r, h1, m1)) \<and>
     valid h1 m1 \<and> holds_key h1 m1 key \<and>
     bucketDensity h m key = Some (Inr n) \<and>
     (if holds_key h m key
      then h1 = h \<and> m1 = m
      else size_hm m1 = size_hm m + 1 \<and> read_ref h1 r = Inr dflt \<and>
           bucketDensity h1 m1 key = Some (Inr (n + 1)))"
proof -
  have core: "\<exists>r h1 m1 n.
     operator_index dflt h m key = Some (Inr (r, h1, m1)) \<and>
     operator_index dflt h1 m1 key = Some (Inr (r, h1, m1)) \<and>
     holds_key h1 m1 key \<and>
     bucketDensity h m key = Some (Inr n) \<and>
     (if holds_key h m key
      then h1 = h \<and> m1 = m
      else size_hm m1 = size_hm m + 1 \<and> read_ref h1 r = Inr dflt \<and>
           bucketDensity h1 m1 key = Some (Inr (n + 1)))"
  proof -
    from v have ok: "heap_ok h"
      by (simp add: valid_def)
    from v obtain t xs as where b: "heads m = Some t" "arrays h t = Some xs"
      "unat (hashThis m key) < length xs"
      "load_head h m (hashThis m key) = Inr (xs ! unat (hashThis m key))"
      "chain h (xs ! unat (hashThis m key)) as"
      by (rule valid_bucket)
    let ?i = "unat (hashThis m key)"
    let ?m1 = "m\<lparr>elementCount := elementCount m + 1\<rparr>"
    have hk: "holds_key h m key \<longleftrightarrow> Some key \<in> key_at h ` set as"
      using b(4,5) by (rule holds_key_iff)
    have dens: "bucketDensity h m key = Some (Inr (of_nat (length as)))"
      using count_chain_length [OF b(5), of 0] b(4) by (simp add: bucketDensity_def)
    have hash1: "hashThis ?m1 key = hashThis m key"
      by (simp add: hashThis_def)
    show ?thesis
    proof (cases "xs ! ?i")
      case None
      with b(5) have as: "as = []"
        by simp
      define h1 where "h1 = h\<lparr>datas := (datas h)(fresh h \<mapsto> dflt), fresh := fresh h + 2,
          nodes := (nodes h)(fresh h + 1 \<mapsto> \<lparr>rawKey = key, dataPointer = Some (fresh h),
                                                parentNode = None, childNode = None\<rparr>),
          arrays := (arrays h)(t \<mapsto> xs[?i := Some (fresh h + 1)])\<rparr>"
      have first: "operator_index dflt h m key = Some (Inr (fresh h, h1, ?m1))"
        unfolding h1_def using b(1,2,3) None by (rule operator_index_empty_bucket)
      have lh: "load_head h1 ?m1 (hashThis ?m1 key) = Inr (Some (fresh h + 1))"
        using b(1,3) by (simp add: load_head_def h1_def hash1)
      have ch1: "chain h1 (Some (fresh h + 1)) [fresh h + 1]"
        by (simp add: h1_def)
      have k1: "key_at h1 (fresh h + 1) = Some key"
        by (simp add: key_at_def h1_def)
      have new1: "nodes h1 (fresh h + 1) = Some \<lparr>rawKey = key, dataPointer = Some (fresh h),
                                                parentNode = None, childNode = None\<rparr>"
        by (simp add: h1_def)
      have "index_loop dflt h1 ?m1 (fresh h + 1) key = Some (Inr (fresh h, h1, ?m1))"
      proof (rule index_loop_found [where xs = "[]" and x = "fresh h + 1" and ys = "[]"])
        show "chain h1 (Some (fresh h + 1)) ([] @ (fresh h + 1) # [])"
          using ch1 by simp
        show "nodes h1 (fresh h + 1) = Some \<lparr>rawKey = key, dataPointer = Some (fresh h),
                                                parentNode = None, childNode = None\<rparr>"
          by (rule new1)
      qed simp_all
      with lh have second: "operator_index dflt h1 ?m1 key = Some (Inr (fresh h, h1, ?m1))"
        by (simp add: operator_index_def)
      have holds: "holds_key h1 ?m1 key"
        using holds_key_iff [OF lh ch1] k1 by simp
      have dens1: "bucketDensity h1 ?m1 key = Some (Inr 1)"
        using count_chain_length [OF ch1, of 0] lh by (simp add: bucketDensity_def)
      have rd: "read_ref h1 (fresh h) = Inr dflt"
        by (simp add: read_ref_def h1_def)
      from hk as have "\<not> holds_key h m key"
        by simp
      with first second holds dens dens1 rd as show ?thesis
        by (simp add: size_hm_def)
    next
      case (Some a)
      with b(5) have ne: "as \<noteq> []"
        by auto
      show ?thesis
      proof (cases "Some key \<in> key_at h ` set as")
        case True
        then obtain x where x: "x \<in> set as" "key_at h x = Some key"
          by auto
        then have "\<exists>xs x ys. as = xs @ x # ys \<and> key_at h x = Some key \<and> (\<forall>y\<in>set xs. key_at h y \<noteq> Some key)"
          using split_list_first_prop [of as "\<lambda>x. key_at h x = Some key"] by blast
        then obtain ys z zs where sp: "as = ys @ z # zs" "key_at h z = Some key"
          "\<forall>y\<in>set ys. key_at h y \<noteq> Some key"
          by blast
        from sp(1) b(5) Some have "\<exists>q. chain h q (z # zs)"
          using chain_drop by blast
        then obtain n d where n: "nodes h z = Some n" "dataPointer n = Some d"
          by (auto split: option.splits)
        with sp(2) have "rawKey n = key"
          by (simp add: key_at_def)
        with b(5) Some sp n have "index_loop dflt h m a key = Some (Inr (d, h, m))"
          using index_loop_found [of h a ys z zs key n d dflt m] by simp
        with b(4) Some have first: "operator_index dflt h m key = Some (Inr (d, h, m))"
          by (simp add: operator_index_def)
        with hk True dens show ?thesis
          by simp
      next
        case False
        from b(5) ne obtain tl where tl: "nodes h (last as) = Some tl"
          using chain_last_child by blast
        define h1 where "h1 = snd (new_child dflt h (last as) tl key)"
        have fst: "fst (new_child dflt h (last as) tl key) = fresh h"
          by (simp add: new_child_eq)
        have absent: "\<forall>y\<in>set as. key_at h y \<noteq> Some key"
          using False by (metis imageI)
        have "index_loop dflt h m a key = Some (Inr (fresh h, h1, ?m1))"
          using index_loop_absent [of h a as key tl dflt m] b(5) Some absent tl
          by (simp add: h1_def fst)
        with b(4) Some have first: "operator_index dflt h m key = Some (Inr (fresh h, h1, ?m1))"
          by (simp add: operator_index_def)
        have arr1: "arrays h1 = arrays h"
          by (simp add: h1_def new_child_eq)
        have lh: "load_head h1 ?m1 (hashThis ?m1 key) = Inr (Some a)"
          using b(1,2,3) Some by (simp add: load_head_def arr1 hash1)
        have ch1: "chain h1 (Some a) (as @ [fresh h + 1])"
          unfolding h1_def using chain_after_new_child [OF ok _ ne tl] b(5) Some by simp
        have live: "\<forall>y\<in>set as. nodes h y \<noteq> None"
          using b(5) chain_live by blast
        have keys1: "\<forall>y\<in>set as. key_at h1 y \<noteq> Some key"
          unfolding h1_def using absent live key_at_after_new_child [OF ok tl] by simp
        have lastlive: "last as < fresh h"
          using ok tl by (auto simp: heap_ok_def not_le [symmetric])
        then have new: "nodes h1 (fresh h + 1) = Some \<lparr>rawKey = key, dataPointer = Some (fresh h),
                                                parentNode = Some (last as), childNode = None\<rparr>"
          by (simp add: h1_def new_child_eq)
        have "index_loop dflt h1 ?m1 a key = Some (Inr (fresh h, h1, ?m1))"
        proof (rule index_loop_found [where xs = as and x = "fresh h + 1" and ys = "[]"])
          show "chain h1 (Some a) (as @ (fresh h + 1) # [])"
            using ch1 by simp
          show "\<forall>y\<in>set as. key_at h1 y \<noteq> Some key"
            by (rule keys1)
          show "nodes h1 (fresh h + 1) = Some \<lparr>rawKey = key, dataPointer = Some (fresh h),
                                                parentNode = Some (last as), childNode = None\<rparr>"
            by (rule new)
        qed simp_all
        with lh have second: "operator_index dflt h1 ?m1 key = Some (Inr (fresh h, h1, ?m1))"
          by (simp add: operator_index_def)
        have k1: "key_at h1 (fresh h + 1) = Some key"
          using new by (simp add: key_at_def)
        have holds: "holds_key h1 ?m1 key"
          using holds_key_iff [OF lh ch1] k1 by simp
        have dens1: "bucketDensity h1 ?m1 key = Some (Inr (of_nat (length as) + 1))"
          using count_chain_length [OF ch1, of 0] lh by (simp add: bucketDensity_def)
        have rd: "read_ref h1 (fresh h) = Inr dflt"
          by (simp add: read_ref_def h1_def new_child_eq)
        from hk False have "\<not> holds_key h m key"
          by simp
        with first second holds dens dens1 rd show ?thesis
          by (simp add: size_hm_def)
      qed
    qed
  qed
  then obtain r h1 m1 n where c: "operator_index dflt h m key = Some (Inr (r, h1, m1))"
    "operator_index dflt h1 m1 key = Some (Inr (r, h1, m1))" "holds_key h1 m1 key"
    "bucketDensity h m key = Some (Inr n)"
    "if holds_key h m key
      then h1 = h \<and> m1 = m
      else size_hm m1 = size_hm m + 1 \<and> read_ref h1 r = Inr dflt \<and>
           bucketDensity h1 m1 key = Some (Inr (n + 1))"
    by blast
  from operator_index_valid [OF v c(1)] have "valid h1 m1" .
  with c show ?thesis
    by blast
qed

theorem operator_index_idempotent_witness:
  "valid two_keys_heap two_keys_map \<and> \<not> holds_key two_keys_heap two_keys_map 5 \<and>
   size_hm two_keys_map = 2 \<and>
   (\<exists>r h1 m1. operator_index 0 two_keys_heap two_keys_map 5 = Some (Inr (r, h1, m1)) \<and>
      operator_index 0 h1 m1 5 = Some (Inr (r, h1, m1)) \<and> size_hm m1 = 3 \<and>
      read_ref h1 r = Inr 0 \<and> bucketDensity h1 m1 5 = Some (Inr 3))"
proof -
  have lh: "load_head two_keys_heap two_keys_map (hashThis two_keys_map 5) = Inr (Some 2)"
    by (simp add: load_head_def hashThis_def two_keys_heap_def two_keys_map_def)
  have ch: "chain two_keys_heap (Some 2) [2, 4]"
    by (simp add: two_keys_heap_def)
  have absent: "\<not> holds_key two_keys_heap two_keys_map 5"
    using holds_key_iff [OF lh ch] by (simp add: key_at_def two_keys_heap_def)
  have dens: "bucketDensity two_keys_heap two_keys_map 5 = Some (Inr 2)"
    using count_chain_length [OF ch, of 0] lh by (simp add: bucketDensity_def)
  have sz: "size_hm two_keys_map = 2"
    by (simp add: size_hm_def two_keys_map_def)
  from operator_index_idempotent [OF two_keys_valid, of 0 5] absent dens sz
  have "\<exists>r h1 m1. operator_index 0 two_keys_heap two_keys_map 5 = Some (Inr (r, h1, m1)) \<and>
      operator_index 0 h1 m1 5 = Some (Inr (r, h1, m1)) \<and> size_hm m1 = 3 \<and>
      read_ref h1 r = Inr 0 \<and> bucketDensity h1 m1 5 = Some (Inr 3)"
    by auto
  with two_keys_valid absent sz show ?thesis
    by blast
qed

section \<open>An access after an \<open>erase\<close> of another key\<close>

text \<open>
  C7. Between its two calls of \<open>operator[](k)\<close> the claim excludes only \<open>erase(k)\<close>. A map
  with 256 buckets receives keys 1 and 257 (both in bucket 1): the first \<open>operator[](257)\<close>
  makes \<open>size()\<close> grow from 1 to 2, and 42 is stored through the reference it returns. A
  second \<open>operator[](257)\<close> at once would return that reference again and change nothing.
  After \<open>erase(1)\<close>, which is no erase of 257, the node of 257 and its value have been
  destroyed by the destructor of the node of 1 (lines 82-85 delete \<open>childNode\<close>), and the
  second \<open>operator[](257)\<close> reads the destroyed node instead of returning the reference to
  the stored 42. The result lists \<open>size()\<close> after the access of 1, \<open>size()\<close> after the
  first access of 257, the value behind the reference, whether a second access at once
  returns the same reference and state, and the second access after \<open>erase(1)\<close>.
\<close>

theorem second_access_after_erase_of_other_key:
  "and_then (Some (hash_map_ctor 256 (empty_heap :: int heap))) (\<lambda>(h0, m0).
   and_then (operator_index 0 h0 m0 1) (\<lambda>(r1, h1, m1).
   and_then (operator_index 0 h1 m1 257) (\<lambda>(r2, h2, m2).
   and_then (Some (write_ref h2 r2 42)) (\<lambda>h3.
   and_then (erase h3 m2 1) (\<lambda>h4.
     Some (Inr (size_hm m1, size_hm m2, read_ref h3 r2,
                operator_index 0 h3 m2 257 = Some (Inr (r2, h3, m2)),
                operator_index 0 h4 m2 257)))))))
   = Some (Inr (1, 2, Inr 42, True, Some (Inl Dangling)))"
  by (simp add: run_defs)

section \<open>Cloning chains\<close>




lemma chain_data_live:
  assumes "chain h p as" "a \<in> set as"
  shows "\<exists>d. data_at h a = Some d \<and> datas h d \<noteq> None"
  using assms
proof (induction as arbitrary: p)
  case Nil
  then show ?case by simp
next
  case (Cons b bs)
  from Cons.prems(1) obtain n d where n: "nodes h b = Some n"
    "dataPointer n = Some d" "datas h d \<noteq> None" "chain h (childNode n) bs"
    by (auto split: option.splits)
  show ?case
  proof (cases "a = b")
    case True
    with n show ?thesis by (simp add: data_at_def)
  next
    case False
    with Cons.prems(2) have "a \<in> set bs" by simp
    with Cons.IH [OF n(4)] show ?thesis by blast
  qed
qed

lemma is_clone_disjoint:
  assumes "is_clone h p h' q" "chain h p as" "chain h' q bs"
  shows "set as \<inter> set bs = {} \<and> data_at h ` set as \<inter> data_at h' ` set bs = {}"
proof -
  from assms(1) obtain as' bs' where c: "chain h p as'" "chain h' q bs'"
    "\<forall>b\<in>set bs'. nodes h b = None \<and> (\<exists>d. data_at h' b = Some d \<and> datas h d = None)"
    unfolding is_clone_def by blast
  from c(1,2) assms(2,3) have eq: "as' = as" "bs' = bs"
    by (auto dest: chain_unique)
  have live: "\<forall>a\<in>set as. nodes h a \<noteq> None"
    using chain_live [OF assms(2)] by blast
  have dlive: "\<forall>a\<in>set as. \<exists>d. data_at h a = Some d \<and> datas h d \<noteq> None"
    using chain_data_live [OF assms(2)] by blast
  have "set as \<inter> set bs = {}"
    using live c(3) eq by auto
  moreover have "data_at h ` set as \<inter> data_at h' ` set bs = {}"
  proof (rule ccontr)
    assume "data_at h ` set as \<inter> data_at h' ` set bs \<noteq> {}"
    then obtain x y where xy: "x \<in> set as" "y \<in> set bs" "data_at h x = data_at h' y"
      by auto
    from dlive xy(1) obtain d where d: "data_at h x = Some d" "datas h d \<noteq> None"
      by blast
    from c(3) eq xy(2) obtain d' where d': "data_at h' y = Some d'" "datas h d' = None"
      by blast
    from d d' xy(3) show False
      by simp
  qed
  ultimately show ?thesis
    by simp
qed




section \<open>Destroying a map whose buckets hold at most one node\<close>






section \<open>Copy assignment onto such a map\<close>


section \<open>Copy assignment on concrete maps\<close>

lemma copy_assign_self: "copy_assign True h m other = Some (Inr (h, m))"
  by (simp add: copy_assign_def)


lemma three_keys_reached:
  "and_then (operator_index 0 two_maps_heap empty_map2 7) (\<lambda>(r, h, m).
   and_then (Some (write_ref h r 70)) (\<lambda>h1. Some (Inr (h1, m))))
   = Some (Inr (three_keys_heap, one_key_map))"
  by (simp add: run_defs replicate_2 fun_eq_iff two_maps_heap_def two_keys_heap_def empty_map2_def
      three_keys_heap_def one_key_map_def)



lemma copy_assign_onto_chain_faults:
  "copy_assign False two_maps_heap two_keys_map empty_map2 = Some (Inl Dangling)"
  apply (simp add: copy_assign_def hash_map_copy_ctor_def hash_map_dtor_def delete_array_def
      swap_exchanges run_defs two_maps_heap_def two_keys_heap_def two_keys_map_def empty_map2_def)
  apply (subst copy_from.simps, simp add: run_defs copy_node.simps)+
  apply (simp add: copy_assign_def hash_map_copy_ctor_def hash_map_dtor_def delete_array_def
      swap_exchanges run_defs)
  apply (subst clear_from.simps, simp add: run_defs delete_array_def)+
  done

section \<open>The copy constructor leaves the element count at zero\<close>



end
